theory Spec2Isabelle
  imports Complex_Main "HOL-Library.Word" "HOL-Library.Log_Nat"
begin

unbundle bit_operations_syntax

text \<open>
  A model of \<^verbatim>\<open>io/gotetra.go\<close>: the decoder of the header of a phase sheet file, the
  reader of its vector payload, the buffer that extracts the corner sub-cube of the grid,
  and the cell bounds of a sheet. Go's \<^verbatim>\<open>int\<close> is taken to be 64 bits wide, as
  \<^verbatim>\<open>int64\<close> is.
\<close>

section \<open>Values shared by the whole package\<close>

type_synonym byte = "8 word"

text \<open>A Go \<^verbatim>\<open>float32\<close> / \<^verbatim>\<open>float64\<close> is kept as its IEEE-754 bit pattern, which is
  what \<^verbatim>\<open>encoding/binary\<close> moves between a file and memory.\<close>

type_synonym float32 = "32 word"
type_synonym float64 = "64 word"
type_synonym vec = "float32 \<times> float32 \<times> float32"

text \<open>Arguments of a \<^verbatim>\<open>fmt.Errorf\<close> call, kept unexpanded next to the format string.\<close>

datatype arg = D int | S string

datatype error =
    IOError string
  | FormatError string "arg list"

text \<open>A Go call either returns or panics.\<close>

datatype 'a go = Ret 'a | Panic string

text \<open>Go's \<^verbatim>\<open>int\<close> and \<^verbatim>\<open>int64\<close> arithmetic wraps silently; \<open>wrap64\<close> is the
  two's-complement reading of a mathematical result.\<close>

definition wrap64 :: "int \<Rightarrow> int" where
  "wrap64 i = (i + 2 ^ 63) mod 2 ^ 64 - 2 ^ 63"

datatype ByteOrder = LittleEndian | BigEndian

definition word_le :: "byte list \<Rightarrow> 'a::len word" where
  "word_le bs = foldr (\<lambda>b w. ucast b OR push_bit 8 w) bs 0"

definition decode_word :: "ByteOrder \<Rightarrow> byte list \<Rightarrow> 'a::len word" where
  "decode_word order bs = (case order of LittleEndian \<Rightarrow> word_le bs | BigEndian \<Rightarrow> word_le (rev bs))"

section \<open>The file system\<close>

datatype ioop = OpSeek | OpClose

text \<open>The files by path, the operations the device refuses, and how many handles have
  been opened and closed so far.\<close>

record world =
  files :: "(string \<times> byte list) list"
  faults :: "ioop list"
  opened :: nat
  closed :: nat

text \<open>An \<^verbatim>\<open>*os.File\<close> opened read-only: the bytes of the file and the read position.\<close>

record File =
  data :: "byte list"
  pos :: nat

definition OpenFile :: "string \<Rightarrow> world \<Rightarrow> (error + File) \<times> world" where
  "OpenFile name w =
     (case map_of (files w) name of
        None \<Rightarrow> (Inl (IOError ''open: no such file or directory''), w)
      | Some bs \<Rightarrow> (Inr \<lparr>data = bs, pos = 0\<rparr>, w\<lparr>opened := opened w + 1\<rparr>))"

definition Seek :: "File \<Rightarrow> nat \<Rightarrow> world \<Rightarrow> error + File" where
  "Seek f off w = (if OpSeek \<in> set (faults w) then Inl (IOError ''seek'') else Inr (f\<lparr>pos := off\<rparr>))"

definition CloseFile :: "File \<Rightarrow> world \<Rightarrow> error option \<times> world" where
  "CloseFile f w =
     ((if OpClose \<in> set (faults w) then Some (IOError ''close'') else None),
      w\<lparr>closed := closed w + 1\<rparr>)"

text \<open>The next \<open>n\<close> bytes of the file, when it has that many left.\<close>

definition read_bytes :: "File \<Rightarrow> nat \<Rightarrow> (byte list \<times> File) option" where
  "read_bytes f n =
     (if pos f + n \<le> length (data f)
      then Some (take n (drop (pos f) (data f)), f\<lparr>pos := pos f + n\<rparr>)
      else None)"

text \<open>Modelled from the spec: \<^verbatim>\<open>readInt32\<close> is called in \<^verbatim>\<open>gotetra.go\<close> but defined in
  a file that is not part of the sources. The spec says it reads a 4-byte signed integer in
  the given byte order. Its call sites use the result as a plain \<^verbatim>\<open>int32\<close>, so a failed
  read cannot come back as an error value; it is modelled as a panic.\<close>

definition readInt32 :: "File \<Rightarrow> ByteOrder \<Rightarrow> (32 word \<times> File) go" where
  "readInt32 f order =
     (case read_bytes f 4 of
        None \<Rightarrow> Panic ''readInt32: unexpected EOF''
      | Some (bs, f') \<Rightarrow> Ret (decode_word order bs, f'))"

section \<open>Headers\<close>

text \<open>\<^verbatim>\<open>CosmologyHeader\<close> is declared outside the sources; it is carried as an opaque
  block of bytes whose size \<open>cs\<close> is a parameter of every function that needs it.\<close>

record RawGotetraHeader =
  Cosmo :: "byte list"
  Count :: "64 word"
  CountWidth :: "64 word"
  SegmentWidth :: "64 word"
  GridWidth :: "64 word"
  GridCount :: "64 word"
  Idx :: "64 word"
  Cells :: "64 word"
  Mass :: float64
  TotalWidth :: float64
  Origin :: vec
  Width :: vec
  VelocityOrigin :: vec
  VelocityWidth :: vec

record GotetraHeader =
  Raw :: RawGotetraHeader
  N :: "64 word"

definition zeroRaw :: "nat \<Rightarrow> RawGotetraHeader" where
  "zeroRaw cs = \<lparr>Cosmo = replicate cs 0, Count = 0, CountWidth = 0, SegmentWidth = 0,
     GridWidth = 0, GridCount = 0, Idx = 0, Cells = 0, Mass = 0, TotalWidth = 0,
     Origin = (0, 0, 0), Width = (0, 0, 0), VelocityOrigin = (0, 0, 0),
     VelocityWidth = (0, 0, 0)\<rparr>"

definition zeroHeader :: "nat \<Rightarrow> GotetraHeader" where
  "zeroHeader cs = \<lparr>Raw = zeroRaw cs, N = 0\<rparr>"

text \<open>\<^verbatim>\<open>unsafe.Sizeof(RawGotetraHeader{})\<close>: the opaque block, seven \<^verbatim>\<open>int64\<close>, two
  \<^verbatim>\<open>float64\<close> and four \<^verbatim>\<open>[3]float32\<close>.\<close>

definition sizeofRaw :: "nat \<Rightarrow> nat" where
  "sizeofRaw cs = cs + 7 * 8 + 2 * 8 + 4 * 12"

definition field :: "ByteOrder \<Rightarrow> byte list \<Rightarrow> nat \<Rightarrow> nat \<Rightarrow> 'a::len word" where
  "field order bs off n = decode_word order (take n (drop off bs))"

text \<open>\<^verbatim>\<open>binary.Read\<close> stores a \<^verbatim>\<open>float32\<close> field through a \<^verbatim>\<open>float64\<close>; the two
  conversions leave every value as it is, except that a signalling NaN comes back quiet.\<close>

definition quiet32 :: "float32 \<Rightarrow> float32" where
  "quiet32 w =
     (if take_bit 8 (drop_bit 23 w) = 255 \<and> take_bit 23 w \<noteq> 0 then w OR 0x00400000 else w)"

definition vec_at :: "ByteOrder \<Rightarrow> byte list \<Rightarrow> nat \<Rightarrow> vec" where
  "vec_at order bs off =
     (quiet32 (field order bs off 4), quiet32 (field order bs (off + 4) 4),
      quiet32 (field order bs (off + 8) 4))"

text \<open>\<^verbatim>\<open>binary.Read\<close> into a \<^verbatim>\<open>RawGotetraHeader\<close>: the fields in declaration order, no
  padding. When the file ends before the header does, the error is \<^verbatim>\<open>io.EOF\<close> if no byte
  of the header is left and \<^verbatim>\<open>io.ErrUnexpectedEOF\<close> otherwise.\<close>

definition decodeRaw :: "nat \<Rightarrow> ByteOrder \<Rightarrow> byte list \<Rightarrow> RawGotetraHeader" where
  "decodeRaw cs order bs =
     \<lparr>Cosmo = take cs bs,
      Count = field order bs cs 8,
      CountWidth = field order bs (cs + 8) 8,
      SegmentWidth = field order bs (cs + 16) 8,
      GridWidth = field order bs (cs + 24) 8,
      GridCount = field order bs (cs + 32) 8,
      Idx = field order bs (cs + 40) 8,
      Cells = field order bs (cs + 48) 8,
      Mass = field order bs (cs + 56) 8,
      TotalWidth = field order bs (cs + 64) 8,
      Origin = vec_at order bs (cs + 72),
      Width = vec_at order bs (cs + 84),
      VelocityOrigin = vec_at order bs (cs + 96),
      VelocityWidth = vec_at order bs (cs + 108)\<rparr>"

definition binary_Read :: "nat \<Rightarrow> File \<Rightarrow> ByteOrder \<Rightarrow> error + (RawGotetraHeader \<times> File)" where
  "binary_Read cs f order =
     (case read_bytes f (sizeofRaw cs) of
        None \<Rightarrow> Inl (IOError (if length (data f) \<le> pos f then ''EOF'' else ''unexpected EOF''))
      | Some (bs, f') \<Rightarrow> Inr (decodeRaw cs order bs, f'))"

definition Postprocess :: "RawGotetraHeader \<Rightarrow> GotetraHeader \<Rightarrow> GotetraHeader" where
  "Postprocess raw hdr =
     (let hd1 = hdr\<lparr>Raw := raw\<rparr>;
          hd2 = hd1\<lparr>Raw := (Raw hd1)\<lparr>Count := CountWidth (Raw hd1) * CountWidth (Raw hd1) * CountWidth (Raw hd1)\<rparr>\<rparr>
      in hd2\<lparr>N := SegmentWidth (Raw hd2) * SegmentWidth (Raw hd2) * SegmentWidth (Raw hd2)\<rparr>)"

definition endianness :: "32 word \<Rightarrow> ByteOrder go" where
  "endianness flag =
     (if flag = 0 then Ret LittleEndian
      else if flag = - 1 then Ret BigEndian
      else Panic ''Unrecognized endianness flag.'')"

definition readSheetHeaderAt ::
  "nat \<Rightarrow> string \<Rightarrow> GotetraHeader \<Rightarrow> world \<Rightarrow> (error + File \<times> ByteOrder) go \<times> GotetraHeader \<times> world" where
  "readSheetHeaderAt cs name hdBuf w =
     (case OpenFile name w of
        (Inl err, w1) \<Rightarrow> (Ret (Inl err), hdBuf, w1)
      | (Inr f, w1) \<Rightarrow>
     (case readInt32 f LittleEndian of
        Panic p \<Rightarrow> (Panic p, hdBuf, w1)
      | Ret (flag, f1) \<Rightarrow>
     (case endianness flag of
        Panic p \<Rightarrow> (Panic p, hdBuf, w1)
      | Ret order \<Rightarrow>
     (case readInt32 f1 order of
        Panic p \<Rightarrow> (Panic p, hdBuf, w1)
      | Ret (headerSize, f2) \<Rightarrow>
      if headerSize \<noteq> word_of_nat (sizeofRaw cs)
      then (Ret (Inl (FormatError ''Expected catalog.SheetHeader size of %d, found %d.''
                        [D (int (sizeofRaw cs)), D (sint headerSize)])), hdBuf, w1)
      else
     (case Seek f2 (4 + 4) w1 of
        Inl err \<Rightarrow> (Ret (Inl err), hdBuf, w1)
      | Inr f3 \<Rightarrow>
     (case binary_Read cs f3 order of
        Inl err \<Rightarrow> (Ret (Inl err), hdBuf, w1)
      | Inr (raw, f4) \<Rightarrow>
          (Ret (Inr (f4, order)), Postprocess raw (hdBuf\<lparr>Raw := raw\<rparr>), w1)))))))"

definition ReadSheetHeaderAt ::
  "nat \<Rightarrow> string \<Rightarrow> GotetraHeader \<Rightarrow> world \<Rightarrow> error option go \<times> GotetraHeader \<times> world" where
  "ReadSheetHeaderAt cs name hdBuf w =
     (case readSheetHeaderAt cs name hdBuf w of
        (Panic p, hd1, w1) \<Rightarrow> (Panic p, hd1, w1)
      | (Ret (Inl err), hd1, w1) \<Rightarrow> (Ret (Some err), hd1, w1)
      | (Ret (Inr (f, order)), hd1, w1) \<Rightarrow>
          (case CloseFile f w1 of
             (Some err, w2) \<Rightarrow> (Ret (Some err), hd1, w2)
           | (None, w2) \<Rightarrow> (Ret None, hd1, w2)))"

section \<open>The vector payload\<close>

text \<open>Consecutive triples of 32-bit values, twelve bytes each, in file order.\<close>

fun vecs :: "ByteOrder \<Rightarrow> byte list \<Rightarrow> vec list" where
  "vecs order (a0 # a1 # a2 # a3 # b0 # b1 # b2 # b3 # c0 # c1 # c2 # c3 # rest) =
     (decode_word order [a0, a1, a2, a3], decode_word order [b0, b1, b2, b3],
      decode_word order [c0, c1, c2, c3]) # vecs order rest"
| "vecs order bs = []"

text \<open>Modelled from the spec: \<^verbatim>\<open>readVecAsByte\<close> is called in \<^verbatim>\<open>gotetra.go\<close> but defined
  in a file that is not part of the sources. The spec says it reads as many consecutive
  triples of 32-bit floats as the target holds, in the given byte order and in file order,
  and that a failed read leaves no partial write behind.\<close>

definition readVecAsByte :: "File \<Rightarrow> ByteOrder \<Rightarrow> vec list \<Rightarrow> error + (vec list \<times> File)" where
  "readVecAsByte f order xsBuf =
     (case read_bytes f (12 * length xsBuf) of
        None \<Rightarrow> Inl (IOError ''unexpected EOF'')
      | Some (bs, f') \<Rightarrow> Inr (vecs order bs, f'))"

definition readSheetPositionsAt ::
  "nat \<Rightarrow> string \<Rightarrow> vec list \<Rightarrow> world \<Rightarrow> error option go \<times> vec list \<times> world" where
  "readSheetPositionsAt cs name xsBuf w =
     (case readSheetHeaderAt cs name (zeroHeader cs) w of
        (Panic p, h, w1) \<Rightarrow> (Panic p, xsBuf, w1)
      | (Ret (Inl err), h, w1) \<Rightarrow> (Ret None, xsBuf, w1)
      | (Ret (Inr (f, order)), h, w1) \<Rightarrow>
          if sint (GridCount (Raw h)) \<noteq> int (length xsBuf)
          then (Ret (Some (FormatError ''Position buffer has length %d, but file %s has %d vectors.''
                             [D (int (length xsBuf)), S name, D (sint (GridCount (Raw h)))])),
                xsBuf, w1)
          else
            (let f1 = (case Seek f (4 + 4 + sizeofRaw cs) w1 of Inl err \<Rightarrow> f | Inr f' \<Rightarrow> f')
             in case readVecAsByte f1 order xsBuf of
                  Inl err \<Rightarrow> (Ret (Some err), xsBuf, w1)
                | Inr (xs, f2) \<Rightarrow>
                    (case CloseFile f2 w1 of
                       (Some err, w2) \<Rightarrow> (Ret (Some err), xs, w2)
                     | (None, w2) \<Rightarrow> (Ret None, xs, w2))))"

section \<open>The sub-grid buffer\<close>

record GotetraBuffer =
  "open" :: bool
  sheet :: "vec list"
  out :: "vec list"
  sw :: int
  gw :: int
  hdr :: GotetraHeader

text \<open>\<^verbatim>\<open>make([][3]float32, n)\<close> panics on a negative length. Memory is not modelled:
  every other length is allocated.\<close>

definition make_slice :: "64 word \<Rightarrow> vec list go" where
  "make_slice n = (if sint n < 0 then Panic ''makeslice: len out of range''
             else Ret (replicate (nat (sint n)) (0, 0, 0)))"

definition NewGotetraBuffer ::
  "nat \<Rightarrow> string \<Rightarrow> world \<Rightarrow> (error + GotetraBuffer) go \<times> world" where
  "NewGotetraBuffer cs fname w =
     (case ReadSheetHeaderAt cs fname (zeroHeader cs) w of
        (Panic p, h, w1) \<Rightarrow> (Panic p, w1)
      | (Ret (Some err), h, w1) \<Rightarrow> (Ret (Inl err), w1)
      | (Ret None, h, w1) \<Rightarrow>
          (let s = SegmentWidth (Raw h); g = GridWidth (Raw h)
           in case make_slice (g * g * g) of
                Panic p \<Rightarrow> (Panic p, w1)
              | Ret sheet0 \<Rightarrow>
                  (case make_slice (s * s * s) of
                     Panic p \<Rightarrow> (Panic p, w1)
                   | Ret out0 \<Rightarrow>
                       (Ret (Inr \<lparr>open = False, sheet = sheet0, out = out0,
                                  sw = sint s, gw = sint g, hdr = zeroHeader cs\<rparr>), w1))))"

definition IsOpen :: "GotetraBuffer \<Rightarrow> bool" where
  "IsOpen buf = open buf"

text \<open>The linear index \<^verbatim>\<open>x + y*w + z*w*w\<close> of the loop body, in Go's wrapping \<^verbatim>\<open>int\<close>.\<close>

definition index3 :: "int \<Rightarrow> int \<Rightarrow> int \<Rightarrow> int \<Rightarrow> int" where
  "index3 w x y z = wrap64 (x + y * w + z * w * w)"

text \<open>Both slices are indexed before the assignment happens; an index outside a slice
  panics and leaves \<open>out\<close> as it is.\<close>

definition in_bounds :: "int \<Rightarrow> 'a list \<Rightarrow> bool" where
  "in_bounds i xs = (0 \<le> i \<and> i < int (length xs))"

function loop_x ::
  "int \<Rightarrow> int \<Rightarrow> vec list \<Rightarrow> int \<Rightarrow> int \<Rightarrow> int \<Rightarrow> vec list \<Rightarrow> unit go \<times> vec list" where
  "loop_x s g sh z y x ot =
     (if x < s then
        (if in_bounds (index3 g x y z) sh \<and> in_bounds (index3 s x y z) ot
         then loop_x s g sh z y (x + 1) (ot[nat (index3 s x y z) := sh ! nat (index3 g x y z)])
         else (Panic ''index out of range'', ot))
      else (Ret (), ot))"
  by pat_completeness auto
termination
  by (relation "measure (\<lambda>(s, g, sh, z, y, x, ot). nat (s - x))") auto

function loop_y ::
  "int \<Rightarrow> int \<Rightarrow> vec list \<Rightarrow> int \<Rightarrow> int \<Rightarrow> vec list \<Rightarrow> unit go \<times> vec list" where
  "loop_y s g sh z y ot =
     (if y < s then
        (case loop_x s g sh z y 0 ot of
           (Ret u, ot') \<Rightarrow> loop_y s g sh z (y + 1) ot'
         | (Panic p, ot') \<Rightarrow> (Panic p, ot'))
      else (Ret (), ot))"
  by pat_completeness auto
termination
  by (relation "measure (\<lambda>(s, g, sh, z, y, ot). nat (s - y))") auto

function loop_z ::
  "int \<Rightarrow> int \<Rightarrow> vec list \<Rightarrow> int \<Rightarrow> vec list \<Rightarrow> unit go \<times> vec list" where
  "loop_z s g sh z ot =
     (if z < s then
        (case loop_y s g sh z 0 ot of
           (Ret u, ot') \<Rightarrow> loop_z s g sh (z + 1) ot'
         | (Panic p, ot') \<Rightarrow> (Panic p, ot'))
      else (Ret (), ot))"
  by pat_completeness auto
termination
  by (relation "measure (\<lambda>(s, g, sh, z, ot). nat (s - z))") auto

definition Read ::
  "nat \<Rightarrow> string \<Rightarrow> GotetraBuffer \<Rightarrow> world \<Rightarrow> (error + vec list) go \<times> GotetraBuffer \<times> world" where
  "Read cs fname buf w =
     (if open buf then (Panic ''Buffer already open.'', buf, w)
      else
        (let buf1 = buf\<lparr>open := True\<rparr>
         in case readSheetPositionsAt cs fname (sheet buf1) w of
              (Panic p, xs, w1) \<Rightarrow> (Panic p, buf1\<lparr>sheet := xs\<rparr>, w1)
            | (Ret (Some err), xs, w1) \<Rightarrow> (Ret (Inl err), buf1\<lparr>sheet := xs\<rparr>, w1)
            | (Ret None, xs, w1) \<Rightarrow>
                (let buf2 = buf1\<lparr>sheet := xs\<rparr>
                 in case loop_z (sw buf2) (gw buf2) (sheet buf2) 0 (out buf2) of
                      (Panic p, ot) \<Rightarrow> (Panic p, buf2\<lparr>out := ot\<rparr>, w1)
                    | (Ret u, ot) \<Rightarrow> (Ret (Inr ot), buf2\<lparr>out := ot\<rparr>, w1))))"

definition Close :: "GotetraBuffer \<Rightarrow> unit go \<times> GotetraBuffer" where
  "Close buf =
     (if \<not> open buf then (Panic ''Buffer already closed.'', buf)
      else (Ret (), buf\<lparr>open := False\<rparr>))"

text \<open>A buffer as the constructor leaves it when nothing overflows: the arrays have the
  lengths \<open>gw\<^sup>3\<close> and \<open>sw\<^sup>3\<close>, and both cubes fit a Go \<^verbatim>\<open>int\<close>.\<close>

definition sized :: "GotetraBuffer \<Rightarrow> bool" where
  "sized buf \<longleftrightarrow>
     0 \<le> sw buf \<and> 0 \<le> gw buf \<and> sw buf ^ 3 < 2 ^ 63 \<and> gw buf ^ 3 < 2 ^ 63 \<and>
     length (sheet buf) = nat (gw buf ^ 3) \<and> length (out buf) = nat (sw buf ^ 3)"

section \<open>Cell bounds\<close>

text \<open>The value of an IEEE-754 number: a sign (true for minus) with a magnitude, an
  infinity, or a NaN.\<close>

datatype fl = Fin bool real | Infty bool | NaN

definition fval :: "fl \<Rightarrow> real" where
  "fval a = (case a of Fin s m \<Rightarrow> (if s then - m else m) | _ \<Rightarrow> 0)"

definition val32 :: "float32 \<Rightarrow> fl" where
  "val32 w =
     (let s = bit w 31; e = uint (take_bit 8 (drop_bit 23 w)); m = uint (take_bit 23 w)
      in if e = 255 then (if m = 0 then Infty s else NaN)
         else if e = 0 then Fin s (real_of_int m * 2 powi (- 149))
         else Fin s (real_of_int (2 ^ 23 + m) * 2 powi (e - 150)))"

definition val64 :: "float64 \<Rightarrow> fl" where
  "val64 w =
     (let s = bit w 63; e = uint (take_bit 11 (drop_bit 52 w)); m = uint (take_bit 52 w)
      in if e = 2047 then (if m = 0 then Infty s else NaN)
         else if e = 0 then Fin s (real_of_int m * 2 powi (- 1074))
         else Fin s (real_of_int (2 ^ 52 + m) * 2 powi (e - 1075)))"

text \<open>Rounding. \<open>expo r\<close> is the binary exponent of a nonzero \<open>r\<close>, the integer \<open>e\<close> with
  \<open>2\<^sup>e \<le> \<bar>r\<bar> < 2\<^sup>e\<^sup>+\<^sup>1\<close>. \<open>rnd p emin r\<close> is \<open>r\<close> rounded to the nearest number
  with \<open>p\<close> significant bits, ties to the even one, numbers below the least normal exponent
  \<open>emin\<close> keeping its spacing: the default rounding of IEEE-754.\<close>

definition expo :: "real \<Rightarrow> int" where
  "expo r = (if 1 \<le> \<bar>r\<bar> then bitlen \<lfloor>\<bar>r\<bar>\<rfloor> - 1 else - bitlen (\<lceil>1 / \<bar>r\<bar>\<rceil> - 1))"

definition round_even :: "real \<Rightarrow> int" where
  "round_even q =
     (let n = \<lfloor>q\<rfloor>; d = q - real_of_int n
      in if d < 1 / 2 then n else if 1 / 2 < d then n + 1 else if even n then n else n + 1)"

definition rnd :: "nat \<Rightarrow> int \<Rightarrow> real \<Rightarrow> real" where
  "rnd p emin r =
     (if r = 0 then 0
      else (let u = 2 powi (max (expo r) emin - int p + 1)
            in real_of_int (round_even (r / u)) * u))"

definition rnd64 :: "real \<Rightarrow> real" where
  "rnd64 r = rnd 53 (- 1022) r"

definition rnd32 :: "real \<Rightarrow> real" where
  "rnd32 r = rnd 24 (- 126) r"

text \<open>The result of an operation whose exact value is \<open>r\<close>: the rounded value, or an
  infinity when that is beyond the largest number of the format. An exact zero takes the
  sign \<open>s\<close> that the operation gives it.\<close>

definition result64 :: "bool \<Rightarrow> real \<Rightarrow> fl" where
  "result64 s r =
     (if r = 0 then Fin s 0
      else if 2 ^ 1024 \<le> \<bar>rnd64 r\<bar> then Infty (r < 0) else Fin (r < 0) \<bar>rnd64 r\<bar>)"

definition result32 :: "bool \<Rightarrow> real \<Rightarrow> fl" where
  "result32 s r =
     (if r = 0 then Fin s 0
      else if 2 ^ 128 \<le> \<bar>rnd32 r\<bar> then Infty (r < 0) else Fin (r < 0) \<bar>rnd32 r\<bar>)"

text \<open>\<^verbatim>\<open>float64(cells)\<close>: an \<^verbatim>\<open>int\<close> is far below the largest \<^verbatim>\<open>float64\<close>.\<close>

definition float64_of_int :: "int \<Rightarrow> fl" where
  "float64_of_int i = Fin (i < 0) \<bar>rnd64 (real_of_int i)\<bar>"

text \<open>Division of two \<^verbatim>\<open>float64\<close>.\<close>

fun fdiv :: "fl \<Rightarrow> fl \<Rightarrow> fl" where
  "fdiv NaN b = NaN"
| "fdiv a NaN = NaN"
| "fdiv (Infty s) (Infty t) = NaN"
| "fdiv (Infty s) (Fin t y) = Infty (s \<noteq> t)"
| "fdiv (Fin s x) (Infty t) = Fin (s \<noteq> t) 0"
| "fdiv (Fin s x) (Fin t y) =
     (if y = 0 then (if x = 0 then NaN else Infty (s \<noteq> t))
      else result64 (s \<noteq> t) (fval (Fin s x) / fval (Fin t y)))"

text \<open>Addition of two \<^verbatim>\<open>float32\<close>.\<close>

fun fadd :: "fl \<Rightarrow> fl \<Rightarrow> fl" where
  "fadd NaN b = NaN"
| "fadd a NaN = NaN"
| "fadd (Infty s) (Infty t) = (if s = t then Infty s else NaN)"
| "fadd (Infty s) (Fin t y) = Infty s"
| "fadd (Fin s x) (Infty t) = Infty t"
| "fadd (Fin s x) (Fin t y) = result32 (s \<and> t) (fval (Fin s x) + fval (Fin t y))"

text \<open>\<^verbatim>\<open>math.Floor\<close>: infinities, NaN and zeros of either sign are returned as they are.\<close>

fun Floor :: "fl \<Rightarrow> fl" where
  "Floor (Fin s x) =
     (let f = \<lfloor>fval (Fin s x)\<rfloor>
      in if f = 0 then Fin s 0 else Fin (f < 0) (real_of_int \<bar>f\<bar>))"
| "Floor a = a"

text \<open>\<^verbatim>\<open>int(f)\<close> truncates towards zero. For a value that an \<^verbatim>\<open>int\<close> cannot hold, and for
  infinities and NaN, Go leaves the result to the implementation: \<open>impl\<close> stands for it.\<close>

definition to_int :: "(fl \<Rightarrow> int) \<Rightarrow> fl \<Rightarrow> int" where
  "to_int impl a =
     (case a of
        Fin s x \<Rightarrow>
          (let t = (if 0 \<le> fval a then \<lfloor>fval a\<rfloor> else \<lceil>fval a\<rceil>)
           in if - (2 ^ 63) \<le> t \<and> t < 2 ^ 63 then t else impl a)
      | _ \<Rightarrow> impl a)"

record CellBounds =
  Origin :: "int \<times> int \<times> int"
  Width :: "int \<times> int \<times> int"

text \<open>One round of the loop over the axes: \<open>cb.Origin[j]\<close> and \<open>cb.Width[j]\<close> from
  \<open>hd.Origin[j]\<close> and \<open>hd.Width[j]\<close>. The sum of the two \<^verbatim>\<open>float32\<close> is taken before the
  conversion to \<^verbatim>\<open>float64\<close>.\<close>

definition axis :: "(fl \<Rightarrow> int) \<Rightarrow> fl \<Rightarrow> float32 \<Rightarrow> float32 \<Rightarrow> int \<times> int" where
  "axis impl cellWidth o_j w_j =
     (let origin = to_int impl (Floor (fdiv (val32 o_j) cellWidth));
          width = wrap64 (1 + to_int impl (Floor (fdiv (fadd (val32 o_j) (val32 w_j)) cellWidth)))
      in (origin, wrap64 (width - origin)))"

definition CellBounds :: "(fl \<Rightarrow> int) \<Rightarrow> GotetraHeader \<Rightarrow> int \<Rightarrow> CellBounds go" where
  "CellBounds impl h cells =
     (let cellWidth = fdiv (val64 (TotalWidth (Raw h))) (float64_of_int cells);
          (ox, oy, oz) = RawGotetraHeader.Origin (Raw h);
          (wx, wy, wz) = RawGotetraHeader.Width (Raw h);
          (ax, bx) = axis impl cellWidth ox wx;
          (ay, by) = axis impl cellWidth oy wy;
          (az, bz) = axis impl cellWidth oz wz
      in Ret \<lparr>Origin = (ax, ay, az), Width = (bx, by, bz)\<rparr>)"

text \<open>A header with the given total width and, on every axis, the given origin and
  width; everything else zero. The header of the spec's example has total width 100,
  origin (5, 5, 5) and width (12, 12, 12).\<close>

definition cell_header_of :: "float64 \<Rightarrow> float32 \<Rightarrow> float32 \<Rightarrow> GotetraHeader" where
  "cell_header_of t a b =
     \<lparr>Raw = (zeroRaw 0)\<lparr>TotalWidth := t,
                          RawGotetraHeader.Origin := (a, a, a),
                          RawGotetraHeader.Width := (b, b, b)\<rparr>,
      N = 0\<rparr>"

definition cell_header :: GotetraHeader where
  "cell_header = cell_header_of 0x4059000000000000 0x40A00000 0x41400000"

text \<open>What amd64 gives for a conversion that does not fit: the smallest \<^verbatim>\<open>int64\<close>.\<close>

definition amd64 :: "fl \<Rightarrow> int" where
  "amd64 a = - (2 ^ 63)"

text \<open>The cell bounds in the words of the spec, each \<^verbatim>\<open>float64\<close> division and the
  \<^verbatim>\<open>float32\<close> sum rounded: \<open>cellWidth\<close> is the total width divided by \<open>cells\<close>, the
  origin index of an axis is the floor of the origin over \<open>cellWidth\<close>, the far index is one
  more than the floor of origin plus width over \<open>cellWidth\<close>, and the width index is the far
  index minus the origin index.\<close>

definition cellWidth :: "real \<Rightarrow> int \<Rightarrow> real" where
  "cellWidth totalWidth cells = rnd64 (totalWidth / rnd64 (real_of_int cells))"

definition originIdx :: "real \<Rightarrow> int \<Rightarrow> real \<Rightarrow> int" where
  "originIdx totalWidth cells origin = \<lfloor>rnd64 (origin / cellWidth totalWidth cells)\<rfloor>"

definition farIdx :: "real \<Rightarrow> int \<Rightarrow> real \<Rightarrow> real \<Rightarrow> int" where
  "farIdx totalWidth cells origin width =
     1 + \<lfloor>rnd64 (rnd32 (origin + width) / cellWidth totalWidth cells)\<rfloor>"

definition widthIdx :: "real \<Rightarrow> int \<Rightarrow> real \<Rightarrow> real \<Rightarrow> int" where
  "widthIdx totalWidth cells origin width =
     farIdx totalWidth cells origin width - originIdx totalWidth cells origin"

definition is_fin :: "fl \<Rightarrow> bool" where
  "is_fin a = (case a of Fin s m \<Rightarrow> True | _ \<Rightarrow> False)"

text \<open>Indices this small are converted and subtracted without leaving the range of an
  \<^verbatim>\<open>int\<close>.\<close>

definition small :: "int \<Rightarrow> bool" where
  "small i \<longleftrightarrow> - (2 ^ 61) \<le> i \<and> i < 2 ^ 61"

section \<open>Sample files\<close>

text \<open>The \<open>n\<close> low bytes of \<open>v\<close>, least significant first.\<close>

fun put_le :: "nat \<Rightarrow> 64 word \<Rightarrow> byte list" where
  "put_le 0 v = []"
| "put_le (Suc n) v = ucast v # put_le n (drop_bit 8 v)"

text \<open>The IEEE-754 single-precision bit pattern of a natural number below \<open>2\<^sup>2\<^sup>4\<close>: the
  biased exponent above the fraction bits.\<close>

definition f32 :: "nat \<Rightarrow> float32" where
  "f32 n =
     (if n = 0 then 0
      else push_bit 23 (word_of_int (127 + (bitlen (int n) - 1))) OR
           push_bit (23 - nat (bitlen (int n) - 1))
             (word_of_int (int n - 2 ^ nat (bitlen (int n) - 1))))"

text \<open>A little-endian sheet file for an empty cosmology block: flag 0, header size 120, a
  header that is zero except for segment width, grid width and grid count, and a payload
  of \<open>n\<close> vectors, the \<open>i\<close>-th being \<open>(i, 0, 0)\<close>.\<close>

definition sample_header :: "64 word \<Rightarrow> 64 word \<Rightarrow> 64 word \<Rightarrow> byte list" where
  "sample_header s g c =
     put_le 8 0 @ put_le 8 0 @ put_le 8 s @ put_le 8 g @ put_le 8 c @ replicate 80 0"

definition sample_payload :: "nat \<Rightarrow> byte list" where
  "sample_payload n =
     concat (map (\<lambda>i. put_le 4 (ucast (f32 i)) @ put_le 4 0 @ put_le 4 0) [0..<n])"

definition sample_file :: "64 word \<Rightarrow> 64 word \<Rightarrow> 64 word \<Rightarrow> nat \<Rightarrow> byte list" where
  "sample_file s g c n = put_le 4 0 @ put_le 4 120 @ sample_header s g c @ sample_payload n"

definition sample_world :: "byte list \<Rightarrow> world" where
  "sample_world bs = \<lparr>files = [(''sheet.dat'', bs)], faults = [], opened = 0, closed = 0\<rparr>"

definition sample_buffer :: "nat \<Rightarrow> nat \<Rightarrow> GotetraBuffer" where
  "sample_buffer s g =
     \<lparr>open = False, sheet = replicate (g * g * g) (0, 0, 0), out = replicate (s * s * s) (0, 0, 0),
      sw = int s, gw = int g, hdr = zeroHeader 0\<rparr>"

section \<open>The extraction loops keep the length of the output\<close>

declare loop_x.simps [simp del] loop_y.simps [simp del] loop_z.simps [simp del]

lemma loop_x_length: "length (snd (loop_x s g sh z y x ot)) = length ot"
proof (induction s g sh z y x ot rule: loop_x.induct)
  case (1 s g sh z y x ot)
  show ?case
    using "1.IH" by (subst loop_x.simps) simp
qed

lemma loop_y_length: "length (snd (loop_y s g sh z y ot)) = length ot"
proof (induction s g sh z y ot rule: loop_y.induct)
  case (1 s g sh z y ot)
  show ?case
  proof (cases "y < s")
    case False
    then show ?thesis by (subst loop_y.simps) simp
  next
    case True
    obtain r ot' where lx: "loop_x s g sh z y 0 ot = (r, ot')"
      by (cases "loop_x s g sh z y 0 ot")
    have len: "length ot' = length ot"
      using loop_x_length [of s g sh z y 0 ot] lx by simp
    show ?thesis
    proof (cases r)
      case (Ret u)
      with True lx len "1.IH" [OF True lx [symmetric]] show ?thesis
        by (subst loop_y.simps) simp
    next
      case (Panic p)
      with True lx len show ?thesis
        by (subst loop_y.simps) simp
    qed
  qed
qed

lemma loop_z_length: "length (snd (loop_z s g sh z ot)) = length ot"
proof (induction s g sh z ot rule: loop_z.induct)
  case (1 s g sh z ot)
  show ?case
  proof (cases "z < s")
    case False
    then show ?thesis by (subst loop_z.simps) simp
  next
    case True
    obtain r ot' where ly: "loop_y s g sh z 0 ot = (r, ot')"
      by (cases "loop_y s g sh z 0 ot")
    have len: "length ot' = length ot"
      using loop_y_length [of s g sh z 0 ot] ly by simp
    show ?thesis
    proof (cases r)
      case (Ret u)
      with True ly len "1.IH" [OF True ly [symmetric]] show ?thesis
        by (subst loop_z.simps) simp
    next
      case (Panic p)
      with True ly len show ?thesis
        by (subst loop_z.simps) simp
    qed
  qed
qed

lemma vecs_length: "length (vecs order bs) = length bs div 12"
  by (induction order bs rule: vecs.induct) simp_all

lemma read_bytes_length: "read_bytes f n = Some (bs, f') \<Longrightarrow> length bs = n"
  by (auto simp: read_bytes_def split: if_splits)

lemma readVecAsByte_length:
  "readVecAsByte f order xs = Inr (ys, f') \<Longrightarrow> length ys = length xs"
  by (auto simp: readVecAsByte_def vecs_length split: option.splits dest: read_bytes_length)

lemma readSheetPositionsAt_length:
  "length (fst (snd (readSheetPositionsAt cs name xs w))) = length xs"
  by (auto simp: readSheetPositionsAt_def Let_def
      split: prod.splits go.splits sum.splits option.splits dest: readVecAsByte_length)

lemma Read_frame:
  "fst (snd (Read cs fname buf w)) =
     buf\<lparr>open := open (fst (snd (Read cs fname buf w))),
         sheet := sheet (fst (snd (Read cs fname buf w))),
         out := out (fst (snd (Read cs fname buf w)))\<rparr>"
  by (simp add: Read_def Let_def split: prod.splits go.splits sum.splits option.splits)

lemma Read_lengths:
  "length (sheet (fst (snd (Read cs fname buf w)))) = length (sheet buf) \<and>
   length (out (fst (snd (Read cs fname buf w)))) = length (out buf)"
proof (cases "open buf")
  case True
  then show ?thesis by (simp add: Read_def)
next
  case False
  obtain r xs w1 where rp: "readSheetPositionsAt cs fname (sheet buf) w = (r, xs, w1)"
    by (cases "readSheetPositionsAt cs fname (sheet buf) w")
  have lx: "length xs = length (sheet buf)"
    using readSheetPositionsAt_length [of cs fname "sheet buf" w] rp by simp
  obtain q ot where lz: "loop_z (sw buf) (gw buf) xs 0 (out buf) = (q, ot)"
    by (cases "loop_z (sw buf) (gw buf) xs 0 (out buf)")
  have lo: "length ot = length (out buf)"
    using loop_z_length [of "sw buf" "gw buf" xs 0 "out buf"] lz by simp
  show ?thesis
    using False rp lx lz lo
    by (simp add: Read_def Let_def split: go.splits option.splits)
qed

text \<open>C10. Every call to \<open>Read\<close> changes at most the open flag and the contents of
  \<open>sheet\<close> and \<open>out\<close>, whatever its outcome (return, error or panic); every call to
  \<open>Close\<close> changes at most the open flag. The cached widths \<open>sw\<close> and \<open>gw\<close> and the
  stored header are untouched, and both arrays keep their lengths, so the index mapping is
  the same in every read/close cycle.\<close>

theorem Read_Close_frame:
  "fst (snd (Read cs fname buf w)) =
     buf\<lparr>open := open (fst (snd (Read cs fname buf w))),
         sheet := sheet (fst (snd (Read cs fname buf w))),
         out := out (fst (snd (Read cs fname buf w)))\<rparr> \<and>
   sw (fst (snd (Read cs fname buf w))) = sw buf \<and>
   gw (fst (snd (Read cs fname buf w))) = gw buf \<and>
   hdr (fst (snd (Read cs fname buf w))) = hdr buf \<and>
   length (sheet (fst (snd (Read cs fname buf w)))) = length (sheet buf) \<and>
   length (out (fst (snd (Read cs fname buf w)))) = length (out buf) \<and>
   snd (Close buf) = buf\<lparr>open := open (snd (Close buf))\<rparr>"
proof -
  have fr: "fst (snd (Read cs fname buf w)) =
     buf\<lparr>open := open (fst (snd (Read cs fname buf w))),
         sheet := sheet (fst (snd (Read cs fname buf w))),
         out := out (fst (snd (Read cs fname buf w)))\<rparr>"
    by (rule Read_frame)
  have s: "sw (fst (snd (Read cs fname buf w))) = sw buf"
    by (subst fr) simp
  have g: "gw (fst (snd (Read cs fname buf w))) = gw buf"
    by (subst fr) simp
  have h: "hdr (fst (snd (Read cs fname buf w))) = hdr buf"
    by (subst fr) simp
  have c: "snd (Close buf) = buf\<lparr>open := open (snd (Close buf))\<rparr>"
    by (simp add: Close_def)
  show ?thesis
    using fr s g h c Read_lengths [of cs fname buf w] by blast
qed

section \<open>What the readers depend on\<close>

text \<open>The readers look at the files and the refused operations only; the handle counters
  never influence a result, and no reader changes the files.\<close>

lemma OpenFile_env:
  "files w' = files w \<Longrightarrow> fst (OpenFile name w') = fst (OpenFile name w)"
  by (simp add: OpenFile_def split: option.splits)

lemma OpenFile_world:
  "files (snd (OpenFile name w)) = files w \<and> faults (snd (OpenFile name w)) = faults w"
  by (simp add: OpenFile_def split: option.splits)

lemma Seek_env: "faults w' = faults w \<Longrightarrow> Seek f off w' = Seek f off w"
  by (simp add: Seek_def)

lemma CloseFile_env: "faults w' = faults w \<Longrightarrow> fst (CloseFile f w') = fst (CloseFile f w)"
  by (simp add: CloseFile_def)

lemma CloseFile_world:
  "files (snd (CloseFile f w)) = files w \<and> faults (snd (CloseFile f w)) = faults w"
  by (simp add: CloseFile_def)

lemma readSheetHeaderAt_snd:
  "snd (snd (readSheetHeaderAt cs name h w)) = snd (OpenFile name w)"
  unfolding readSheetHeaderAt_def
  by (auto split: prod.splits go.splits sum.splits)

lemma readSheetHeaderAt_world:
  "files (snd (snd (readSheetHeaderAt cs name h w))) = files w \<and>
   faults (snd (snd (readSheetHeaderAt cs name h w))) = faults w"
  by (simp add: readSheetHeaderAt_snd OpenFile_world)

lemma readSheetHeaderAt_env:
  assumes "files w' = files w" and "faults w' = faults w"
  shows "fst (readSheetHeaderAt cs name h w') = fst (readSheetHeaderAt cs name h w) \<and>
         fst (snd (readSheetHeaderAt cs name h w')) = fst (snd (readSheetHeaderAt cs name h w))"
proof -
  obtain r w1 where o: "OpenFile name w = (r, w1)"
    by (cases "OpenFile name w")
  obtain r' w1' where o': "OpenFile name w' = (r', w1')"
    by (cases "OpenFile name w'")
  have rr: "r' = r"
    using OpenFile_env [OF assms(1), of name] o o' by simp
  have "faults w1' = faults w1"
    using OpenFile_world [of name w] OpenFile_world [of name w'] o o' assms(2) by simp
  then have sk: "\<And>f off. Seek f off w1' = Seek f off w1"
    by (rule Seek_env)
  show ?thesis
    unfolding readSheetHeaderAt_def o o' rr
    by (auto simp: sk split: prod.splits go.splits sum.splits)
qed

lemma readSheetPositionsAt_world:
  "files (snd (snd (readSheetPositionsAt cs name xs w))) = files w \<and>
   faults (snd (snd (readSheetPositionsAt cs name xs w))) = faults w"
proof -
  obtain r h w1 where rh: "readSheetHeaderAt cs name (zeroHeader cs) w = (r, h, w1)"
    by (cases "readSheetHeaderAt cs name (zeroHeader cs) w")
  have "files w1 = files w \<and> faults w1 = faults w"
    using readSheetHeaderAt_world [of cs name "zeroHeader cs" w] rh by simp
  then show ?thesis
    using rh
    by (simp add: readSheetPositionsAt_def CloseFile_def Let_def
        split: prod.splits go.splits sum.splits option.splits)
qed

lemma readSheetPositionsAt_env:
  assumes "files w' = files w" and "faults w' = faults w" and "length xs' = length xs"
  shows "fst (readSheetPositionsAt cs name xs' w') = fst (readSheetPositionsAt cs name xs w)"
proof -
  obtain r h w1 where rh: "readSheetHeaderAt cs name (zeroHeader cs) w = (r, h, w1)"
    by (cases "readSheetHeaderAt cs name (zeroHeader cs) w")
  obtain r' h' w1' where rh': "readSheetHeaderAt cs name (zeroHeader cs) w' = (r', h', w1')"
    by (cases "readSheetHeaderAt cs name (zeroHeader cs) w'")
  have same: "r' = r \<and> h' = h"
    using readSheetHeaderAt_env [OF assms(1,2), of cs name "zeroHeader cs"] rh rh' by simp
  have env: "faults w1' = faults w1"
    using readSheetHeaderAt_world [of cs name "zeroHeader cs" w]
      readSheetHeaderAt_world [of cs name "zeroHeader cs" w'] rh rh' assms(2) by simp
  show ?thesis
    using rh rh' same env assms(3)
    by (simp add: readSheetPositionsAt_def readVecAsByte_def CloseFile_def Seek_def Let_def
        split: prod.splits go.splits sum.splits option.splits)
qed

lemma loop_x_outcome:
  "length sh' = length sh \<Longrightarrow> length ot' = length ot \<Longrightarrow>
   fst (loop_x s g sh' z y x ot') = fst (loop_x s g sh z y x ot)"
proof (induction s g sh z y x ot arbitrary: ot' rule: loop_x.induct)
  case (1 s g sh z y x ot)
  show ?case
  proof (cases "x < s \<and> in_bounds (index3 g x y z) sh \<and> in_bounds (index3 s x y z) ot")
    case True
    have "fst (loop_x s g sh' z y (x + 1) (ot'[nat (index3 s x y z) := sh' ! nat (index3 g x y z)])) =
          fst (loop_x s g sh z y (x + 1) (ot[nat (index3 s x y z) := sh ! nat (index3 g x y z)]))"
      using True "1.prems" by (intro "1.IH") simp_all
    then show ?thesis
      using True "1.prems"
      by (subst loop_x.simps, subst (2) loop_x.simps) (simp add: in_bounds_def)
  next
    case False
    then show ?thesis
      using "1.prems"
      by (subst loop_x.simps, subst (2) loop_x.simps) (auto simp: in_bounds_def)
  qed
qed

lemma loop_y_outcome:
  "length sh' = length sh \<Longrightarrow> length ot' = length ot \<Longrightarrow>
   fst (loop_y s g sh' z y ot') = fst (loop_y s g sh z y ot)"
proof (induction s g sh z y ot arbitrary: ot' rule: loop_y.induct)
  case (1 s g sh z y ot)
  show ?case
  proof (cases "y < s")
    case False
    then show ?thesis
      by (subst loop_y.simps, subst (2) loop_y.simps) simp
  next
    case True
    obtain r o1 where lx: "loop_x s g sh z y 0 ot = (r, o1)"
      by (cases "loop_x s g sh z y 0 ot")
    obtain r' o1' where lx': "loop_x s g sh' z y 0 ot' = (r', o1')"
      by (cases "loop_x s g sh' z y 0 ot'")
    have rr: "r' = r"
      using loop_x_outcome [OF "1.prems", of s g z y 0] lx lx' by simp
    have len: "length o1' = length o1"
      using loop_x_length [of s g sh z y 0 ot] loop_x_length [of s g sh' z y 0 ot'] lx lx' "1.prems"
      by simp
    show ?thesis
    proof (cases r)
      case (Panic p)
      with True lx lx' rr show ?thesis
        by (subst loop_y.simps, subst (2) loop_y.simps) simp
    next
      case (Ret u)
      have "fst (loop_y s g sh' z (y + 1) o1') = fst (loop_y s g sh z (y + 1) o1)"
        using "1.IH" [OF True lx [symmetric] Ret "1.prems"(1) len] .
      with True lx lx' rr Ret show ?thesis
        by (subst loop_y.simps, subst (2) loop_y.simps) simp
    qed
  qed
qed

lemma loop_z_outcome:
  "length sh' = length sh \<Longrightarrow> length ot' = length ot \<Longrightarrow>
   fst (loop_z s g sh' z ot') = fst (loop_z s g sh z ot)"
proof (induction s g sh z ot arbitrary: ot' rule: loop_z.induct)
  case (1 s g sh z ot)
  show ?case
  proof (cases "z < s")
    case False
    then show ?thesis
      by (subst loop_z.simps, subst (2) loop_z.simps) simp
  next
    case True
    obtain r o1 where ly: "loop_y s g sh z 0 ot = (r, o1)"
      by (cases "loop_y s g sh z 0 ot")
    obtain r' o1' where ly': "loop_y s g sh' z 0 ot' = (r', o1')"
      by (cases "loop_y s g sh' z 0 ot'")
    have rr: "r' = r"
      using loop_y_outcome [OF "1.prems", of s g z 0] ly ly' by simp
    have len: "length o1' = length o1"
      using loop_y_length [of s g sh z 0 ot] loop_y_length [of s g sh' z 0 ot'] ly ly' "1.prems"
      by simp
    show ?thesis
    proof (cases r)
      case (Panic p)
      with True ly ly' rr show ?thesis
        by (subst loop_z.simps, subst (2) loop_z.simps) simp
    next
      case (Ret u)
      have "fst (loop_z s g sh' (z + 1) o1') = fst (loop_z s g sh (z + 1) o1)"
        using "1.IH" [OF True ly [symmetric] Ret "1.prems"(1) len] .
      with True ly ly' rr Ret show ?thesis
        by (subst loop_z.simps, subst (2) loop_z.simps) simp
    qed
  qed
qed

section \<open>Errors of the header decode in the payload reader\<close>

lemma readSheetPositionsAt_header_error:
  assumes "fst (readSheetHeaderAt cs name (zeroHeader cs) w) = Ret (Inl e)"
  shows "readSheetPositionsAt cs name xs w =
           (Ret None, xs, snd (snd (readSheetHeaderAt cs name (zeroHeader cs) w)))"
  using assms
  by (cases "readSheetHeaderAt cs name (zeroHeader cs) w") (simp add: readSheetPositionsAt_def)

text \<open>C1. The payload reader is meant to surface a failure of the header decode to its
  caller. It does not: on a path that cannot be opened it returns \<^verbatim>\<open>nil\<close> (success) with
  the target array untouched, because the error branch reads \<^verbatim>\<open>return nil\<close> where the
  sibling \<open>ReadSheetHeaderAt\<close> has \<^verbatim>\<open>return err\<close>.\<close>

theorem readSheetPositionsAt_missing_file:
  "readSheetPositionsAt cs ''missing.dat'' xs \<lparr>files = [], faults = [], opened = 0, closed = 0\<rparr> =
     (Ret None, xs, \<lparr>files = [], faults = [], opened = 0, closed = 0\<rparr>)"
  by (simp add: readSheetPositionsAt_def readSheetHeaderAt_def OpenFile_def)

section \<open>A failed read\<close>

text \<open>The claim that a failed \<open>Read\<close> leaves the buffer closed is false: \<open>Read\<close> sets the
  flag before it reads. Here the header announces 0 vectors for a sheet of length 1.\<close>

theorem Read_failure_leaves_open_counterexample:
  "\<not> IsOpen (sample_buffer 1 1) \<and>
   fst (Read 0 ''sheet.dat'' (sample_buffer 1 1) (sample_world (sample_file 1 1 0 0))) =
     Ret (Inl (FormatError ''Position buffer has length %d, but file %s has %d vectors.''
                 [D 1, S ''sheet.dat'', D 0])) \<and>
   IsOpen (fst (snd (Read 0 ''sheet.dat'' (sample_buffer 1 1) (sample_world (sample_file 1 1 0 0)))))"
  by code_simp

text \<open>C2 (amended). When \<open>Read\<close> on a closed buffer fails with an error, the buffer is left
  open (\<open>IsOpen\<close> returns true); \<open>out\<close>, \<open>sw\<close> and \<open>gw\<close> are as before the call.\<close>

theorem Read_failure_leaves_open:
  assumes "\<not> IsOpen buf" and "fst (Read cs fname buf w) = Ret (Inl err)"
  shows "IsOpen (fst (snd (Read cs fname buf w))) \<and>
         out (fst (snd (Read cs fname buf w))) = out buf \<and>
         sw (fst (snd (Read cs fname buf w))) = sw buf \<and>
         gw (fst (snd (Read cs fname buf w))) = gw buf"
  using assms
  by (simp add: Read_def IsOpen_def Let_def split: prod.splits go.splits sum.splits option.splits)

theorem Read_failure_leaves_open_witness:
  "\<not> IsOpen (sample_buffer 1 1) \<and>
   fst (Read 0 ''sheet.dat'' (sample_buffer 1 1) (sample_world (sample_file 1 1 0 0))) =
     Ret (Inl (FormatError ''Position buffer has length %d, but file %s has %d vectors.''
                 [D 1, S ''sheet.dat'', D 0])) \<and>
   IsOpen (fst (snd (Read 0 ''sheet.dat'' (sample_buffer 1 1) (sample_world (sample_file 1 1 0 0))))) \<and>
   out (fst (snd (Read 0 ''sheet.dat'' (sample_buffer 1 1) (sample_world (sample_file 1 1 0 0))))) =
     out (sample_buffer 1 1)"
proof -
  have a: "\<not> IsOpen (sample_buffer 1 1)"
    by code_simp
  have b: "fst (Read 0 ''sheet.dat'' (sample_buffer 1 1) (sample_world (sample_file 1 1 0 0))) =
     Ret (Inl (FormatError ''Position buffer has length %d, but file %s has %d vectors.''
                 [D 1, S ''sheet.dat'', D 0]))"
    by code_simp
  show ?thesis
    using a b Read_failure_leaves_open [OF a b] by simp
qed

section \<open>The life cycle of a buffer\<close>

lemma Read_success_cases:
  assumes "\<not> open buf" and "fst (Read cs fname buf w) = Ret (Inr o1)"
  shows "\<exists>xs w1 ot. readSheetPositionsAt cs fname (sheet buf) w = (Ret None, xs, w1) \<and>
           loop_z (sw buf) (gw buf) xs 0 (out buf) = (Ret (), ot) \<and> o1 = ot \<and>
           Read cs fname buf w = (Ret (Inr ot), buf\<lparr>open := True, sheet := xs, out := ot\<rparr>, w1)"
proof -
  obtain r xs w1 where rp: "readSheetPositionsAt cs fname (sheet buf) w = (r, xs, w1)"
    by (cases "readSheetPositionsAt cs fname (sheet buf) w")
  obtain q ot where lz: "loop_z (sw buf) (gw buf) xs 0 (out buf) = (q, ot)"
    by (cases "loop_z (sw buf) (gw buf) xs 0 (out buf)")
  from assms rp lz have "r = Ret None \<and> q = Ret () \<and> o1 = ot"
    by (simp add: Read_def Let_def split: go.splits option.splits)
  with assms(1) rp lz show ?thesis
    by (simp add: Read_def Let_def)
qed

lemma Read_again:
  assumes "\<not> open buf" and "fst (Read cs fname buf w) = Ret (Inr o1)"
  shows "\<exists>o2. fst (Read cs fname (snd (Close (fst (snd (Read cs fname buf w)))))
                    (snd (snd (Read cs fname buf w)))) = Ret (Inr o2)"
proof -
  from Read_success_cases [OF assms] obtain xs w1 ot where
    rp: "readSheetPositionsAt cs fname (sheet buf) w = (Ret None, xs, w1)" and
    lz: "loop_z (sw buf) (gw buf) xs 0 (out buf) = (Ret (), ot)" and
    rd: "Read cs fname buf w = (Ret (Inr ot), buf\<lparr>open := True, sheet := xs, out := ot\<rparr>, w1)"
    by blast
  let ?b2 = "snd (Close (buf\<lparr>open := True, sheet := xs, out := ot\<rparr>))"
  have fields: "\<not> open ?b2" "sheet ?b2 = xs" "out ?b2 = ot" "sw ?b2 = sw buf" "gw ?b2 = gw buf"
    by (simp_all add: Close_def)
  have env: "files w1 = files w \<and> faults w1 = faults w"
    using readSheetPositionsAt_world [of cs fname "sheet buf" w] rp by simp
  have lxs: "length xs = length (sheet buf)"
    using readSheetPositionsAt_length [of cs fname "sheet buf" w] rp by simp
  have lot: "length ot = length (out buf)"
    using loop_z_length [of "sw buf" "gw buf" xs 0 "out buf"] lz by simp
  obtain r2 xs2 w2 where rp2: "readSheetPositionsAt cs fname xs w1 = (r2, xs2, w2)"
    by (cases "readSheetPositionsAt cs fname xs w1")
  have r2: "r2 = Ret None"
    using readSheetPositionsAt_env [of w1 w xs "sheet buf" cs fname] env lxs rp rp2 by simp
  have lxs2: "length xs2 = length xs"
    using readSheetPositionsAt_length [of cs fname xs w1] rp2 by simp
  obtain q2 ot2 where lz2: "loop_z (sw buf) (gw buf) xs2 0 ot = (q2, ot2)"
    by (cases "loop_z (sw buf) (gw buf) xs2 0 ot")
  have q2: "q2 = Ret ()"
    using loop_z_outcome [OF lxs2 lot, of "sw buf" "gw buf" 0] lz lz2 by simp
  have "fst (Read cs fname ?b2 w1) = Ret (Inr ot2)"
    unfolding Read_def using fields rp2 r2 lz2 q2 by (simp add: Let_def)
  then show ?thesis
    unfolding rd fst_conv snd_conv by blast
qed

text \<open>C9. The buffer is a two-state automaton. \<open>Read\<close> on an open buffer panics and
  \<open>Close\<close> on a closed buffer panics, both leaving the buffer as it was; \<open>Close\<close> on an
  open buffer closes it; a successful \<open>Read\<close> on a closed buffer opens it, and after the
  following \<open>Close\<close> a second \<open>Read\<close> of the same file succeeds again, with an output of
  the same length (the arrays are reused, not reallocated).\<close>

theorem buffer_lifecycle:
  "(open buf \<longrightarrow> Read cs fname buf w = (Panic ''Buffer already open.'', buf, w)) \<and>
   (\<not> open buf \<longrightarrow> Close buf = (Panic ''Buffer already closed.'', buf)) \<and>
   (open buf \<longrightarrow> Close buf = (Ret (), buf\<lparr>open := False\<rparr>)) \<and>
   (\<not> open buf \<and> fst (Read cs fname buf w) = Ret (Inr o1) \<longrightarrow>
      open (fst (snd (Read cs fname buf w))) \<and>
      fst (Close (fst (snd (Read cs fname buf w)))) = Ret () \<and>
      \<not> open (snd (Close (fst (snd (Read cs fname buf w))))) \<and>
      (\<exists>o2. fst (Read cs fname (snd (Close (fst (snd (Read cs fname buf w)))))
                   (snd (snd (Read cs fname buf w)))) = Ret (Inr o2) \<and>
            length o2 = length o1))"
proof (intro conjI impI)
  show "Read cs fname buf w = (Panic ''Buffer already open.'', buf, w)" if "open buf"
    using that by (simp add: Read_def)
  show "Close buf = (Panic ''Buffer already closed.'', buf)" if "\<not> open buf"
    using that by (simp add: Close_def)
  show "Close buf = (Ret (), buf\<lparr>open := False\<rparr>)" if "open buf"
    using that by (simp add: Close_def)
next
  assume a: "\<not> open buf \<and> fst (Read cs fname buf w) = Ret (Inr o1)"
  then have no: "\<not> open buf" and ok: "fst (Read cs fname buf w) = Ret (Inr o1)"
    by simp_all
  from Read_success_cases [OF no ok] obtain xs w1 ot where
    rd: "Read cs fname buf w = (Ret (Inr ot), buf\<lparr>open := True, sheet := xs, out := ot\<rparr>, w1)"
    and o1: "o1 = ot"
    by blast
  show "open (fst (snd (Read cs fname buf w)))"
    by (simp add: rd)
  show "fst (Close (fst (snd (Read cs fname buf w)))) = Ret ()"
    by (simp add: rd Close_def)
  show "\<not> open (snd (Close (fst (snd (Read cs fname buf w)))))"
    by (simp add: rd Close_def)
  from Read_again [OF no ok] obtain o2 where
    r2: "fst (Read cs fname (snd (Close (fst (snd (Read cs fname buf w)))))
                (snd (snd (Read cs fname buf w)))) = Ret (Inr o2)"
    by blast
  let ?b2 = "snd (Close (fst (snd (Read cs fname buf w))))"
  let ?w1 = "snd (snd (Read cs fname buf w))"
  have nb2: "\<not> open ?b2"
    by (simp add: rd Close_def)
  from Read_success_cases [OF nb2 r2] obtain ys w2 ot2 where
    rd2: "Read cs fname ?b2 ?w1 = (Ret (Inr ot2), ?b2\<lparr>open := True, sheet := ys, out := ot2\<rparr>, w2)"
    and o2: "o2 = ot2"
    by blast
  have "length (out (fst (snd (Read cs fname ?b2 ?w1)))) = length (out ?b2)"
    using Read_lengths [of cs fname ?b2 ?w1] by simp
  then have "length ot2 = length (out ?b2)"
    by (simp add: rd2)
  moreover have "out ?b2 = ot"
    by (simp add: rd Close_def)
  ultimately have "length o2 = length o1"
    using o1 o2 by simp
  with r2 show "\<exists>o2. fst (Read cs fname ?b2 ?w1) = Ret (Inr o2) \<and> length o2 = length o1"
    by blast
qed

theorem buffer_lifecycle_witness:
  "\<not> open (sample_buffer 1 1) \<and>
   fst (Read 0 ''sheet.dat'' (sample_buffer 1 1) (sample_world (sample_file 1 1 1 1))) = Ret (Inr [(f32 0, 0, 0)]) \<and>
   open (fst (snd (Read 0 ''sheet.dat'' (sample_buffer 1 1) (sample_world (sample_file 1 1 1 1))))) \<and>
   Read 0 ''sheet.dat'' (fst (snd (Read 0 ''sheet.dat'' (sample_buffer 1 1) (sample_world (sample_file 1 1 1 1)))))
     (sample_world (sample_file 1 1 1 1)) =
     (Panic ''Buffer already open.'',
      fst (snd (Read 0 ''sheet.dat'' (sample_buffer 1 1) (sample_world (sample_file 1 1 1 1)))),
      sample_world (sample_file 1 1 1 1)) \<and>
   Close (sample_buffer 1 1) = (Panic ''Buffer already closed.'', sample_buffer 1 1) \<and>
   (\<exists>o2. fst (Read 0 ''sheet.dat''
               (snd (Close (fst (snd (Read 0 ''sheet.dat'' (sample_buffer 1 1) (sample_world (sample_file 1 1 1 1)))))))
               (snd (snd (Read 0 ''sheet.dat'' (sample_buffer 1 1) (sample_world (sample_file 1 1 1 1)))))) = Ret (Inr o2))"
proof -
  let ?b = "sample_buffer 1 1"
  let ?w = "sample_world (sample_file 1 1 1 1)"
  have a: "\<not> open ?b"
    by code_simp
  have b: "fst (Read 0 ''sheet.dat'' ?b ?w) = Ret (Inr [(f32 0, 0, 0)])"
    by code_simp
  have c: "open (fst (snd (Read 0 ''sheet.dat'' ?b ?w)))"
    using buffer_lifecycle [of ?b 0 "''sheet.dat''" ?w "[(f32 0, 0, 0)]"] a b by blast
  show ?thesis
    using a b c buffer_lifecycle [of ?b 0 "''sheet.dat''" ?w "[(f32 0, 0, 0)]"]
      buffer_lifecycle [of "fst (snd (Read 0 ''sheet.dat'' ?b ?w))" 0 "''sheet.dat''" ?w "[]"]
    by blast
qed

section \<open>The endianness flag\<close>

text \<open>The four bytes of a 32-bit word can be read back from it, so a flag of all zeros or
  all ones is the same in both byte orders and no other flag reads as 0 or -1.\<close>

lemma le32_b0: "(ucast (word_le [b0, b1, b2, b3] :: 32 word) :: byte) = b0"
  by (rule bit_word_eqI) (auto simp: word_le_def bit_simps dest: bit_imp_le_length)

lemma le32_b1: "(ucast (drop_bit 8 (word_le [b0, b1, b2, b3] :: 32 word)) :: byte) = b1"
  by (rule bit_word_eqI) (auto simp: word_le_def bit_simps dest: bit_imp_le_length)

lemma le32_b2: "(ucast (drop_bit 16 (word_le [b0, b1, b2, b3] :: 32 word)) :: byte) = b2"
  by (rule bit_word_eqI) (auto simp: word_le_def bit_simps dest: bit_imp_le_length)

lemma le32_b3: "(ucast (drop_bit 24 (word_le [b0, b1, b2, b3] :: 32 word)) :: byte) = b3"
  by (rule bit_word_eqI) (auto simp: word_le_def bit_simps dest: bit_imp_le_length)

lemma ucast_drop_ones: "(ucast (drop_bit k (- 1 :: 32 word)) :: byte) = - 1" if "k \<le> 24"
  using that by (intro bit_word_eqI) (auto simp: bit_simps)

lemma word_le_ones: "(word_le [- 1, - 1, - 1, - 1] :: 32 word) = - 1"
proof (rule bit_word_eqI)
  fix n assume "n < LENGTH(32)"
  then have "n < 8 \<or> (8 \<le> n \<and> n < 16) \<or> (16 \<le> n \<and> n < 24) \<or> (24 \<le> n \<and> n < 32)"
    by auto
  then show "bit (word_le [- 1, - 1, - 1, - 1] :: 32 word) n = bit (- 1 :: 32 word) n"
    by (auto simp: word_le_def bit_simps)
qed

lemma word_le_zeros: "(word_le [0, 0, 0, 0] :: 32 word) = 0"
  by (simp add: word_le_def)

lemma word_le_eq_0:
  "(word_le [b0, b1, b2, b3] :: 32 word) = 0 \<longleftrightarrow> b0 = 0 \<and> b1 = 0 \<and> b2 = 0 \<and> b3 = 0"
proof
  assume z: "(word_le [b0, b1, b2, b3] :: 32 word) = 0"
  show "b0 = 0 \<and> b1 = 0 \<and> b2 = 0 \<and> b3 = 0"
    using le32_b0 [of b0 b1 b2 b3] le32_b1 [of b0 b1 b2 b3] le32_b2 [of b0 b1 b2 b3]
      le32_b3 [of b0 b1 b2 b3]
    unfolding z by simp
next
  assume "b0 = 0 \<and> b1 = 0 \<and> b2 = 0 \<and> b3 = 0"
  then show "(word_le [b0, b1, b2, b3] :: 32 word) = 0"
    by (simp add: word_le_zeros)
qed

lemma word_le_eq_ones:
  "(word_le [b0, b1, b2, b3] :: 32 word) = - 1 \<longleftrightarrow> b0 = - 1 \<and> b1 = - 1 \<and> b2 = - 1 \<and> b3 = - 1"
proof
  assume z: "(word_le [b0, b1, b2, b3] :: 32 word) = - 1"
  show "b0 = - 1 \<and> b1 = - 1 \<and> b2 = - 1 \<and> b3 = - 1"
    using le32_b0 [of b0 b1 b2 b3] le32_b1 [of b0 b1 b2 b3] le32_b2 [of b0 b1 b2 b3]
      le32_b3 [of b0 b1 b2 b3] ucast_drop_ones [of 0] ucast_drop_ones [of 8]
      ucast_drop_ones [of 16] ucast_drop_ones [of 24]
    unfolding z by simp
next
  assume "b0 = - 1 \<and> b1 = - 1 \<and> b2 = - 1 \<and> b3 = - 1"
  then show "(word_le [b0, b1, b2, b3] :: 32 word) = - 1"
    by (simp add: word_le_ones)
qed

lemma endianness_symmetric:
  "endianness (decode_word BigEndian [b0, b1, b2, b3]) =
   endianness (decode_word LittleEndian [b0, b1, b2, b3])"
  by (auto simp: endianness_def decode_word_def word_le_eq_0 word_le_eq_ones)

lemma flag_symmetric:
  "decode_word LittleEndian [b0, b1, b2, b3] = (0 :: 32 word) \<or>
   decode_word LittleEndian [b0, b1, b2, b3] = (- 1 :: 32 word) \<Longrightarrow>
   decode_word BigEndian [b0, b1, b2, b3] = (decode_word LittleEndian [b0, b1, b2, b3] :: 32 word)"
  by (auto simp: decode_word_def word_le_eq_0 word_le_eq_ones word_le_zeros word_le_ones)

lemma read_bytes_4:
  "read_bytes \<lparr>data = b0 # b1 # b2 # b3 # rest, pos = 0\<rparr> 4 =
     Some ([b0, b1, b2, b3], \<lparr>data = b0 # b1 # b2 # b3 # rest, pos = 4\<rparr>)"
  by (simp add: read_bytes_def)

lemma read_bytes_4_4:
  "read_bytes \<lparr>data = b0 # b1 # b2 # b3 # s0 # s1 # s2 # s3 # rest, pos = 4\<rparr> 4 =
     Some ([s0, s1, s2, s3], \<lparr>data = b0 # b1 # b2 # b3 # s0 # s1 # s2 # s3 # rest, pos = 8\<rparr>)"
  by (simp add: read_bytes_def)

lemma readSheetHeaderAt_bad_flag:
  assumes "map_of (files w) name = Some (b0 # b1 # b2 # b3 # rest)"
    and "decode_word LittleEndian [b0, b1, b2, b3] \<noteq> (0 :: 32 word)"
    and "decode_word LittleEndian [b0, b1, b2, b3] \<noteq> (- 1 :: 32 word)"
  shows "readSheetHeaderAt cs name h w =
           (Panic ''Unrecognized endianness flag.'', h, w\<lparr>opened := opened w + 1\<rparr>)"
  using assms
  by (simp add: readSheetHeaderAt_def OpenFile_def readInt32_def read_bytes_4 endianness_def)

text \<open>The claim that an unrecognized flag gives a \<open>FormatError\<close> is false: the decoder
  panics, on the flag 1 for instance.\<close>

theorem endianness_panics_counterexample:
  "endianness 1 = Panic ''Unrecognized endianness flag.'' \<and>
   fst (readSheetHeaderAt 0 ''sheet.dat'' (zeroHeader 0)
          (sample_world (put_le 4 1 @ put_le 4 120 @ sample_header 1 1 1))) =
     Panic ''Unrecognized endianness flag.''"
  by code_simp

text \<open>C6 (amended). Flag 0 selects little-endian and flag -1 selects big-endian; every
  other flag makes \<open>endianness\<close>, and with it the header decoder, panic with
  "Unrecognized endianness flag." instead of returning an error, the header buffer left
  as it was. The outcome for the four flag bytes is the same whichever byte order they are
  read in, and a flag that reads as 0 or -1 in one order reads the same in the other.\<close>

theorem endianness_flag:
  "endianness 0 = Ret LittleEndian \<and>
   endianness (- 1) = Ret BigEndian \<and>
   (flag \<noteq> 0 \<and> flag \<noteq> - 1 \<longrightarrow> endianness flag = Panic ''Unrecognized endianness flag.'') \<and>
   endianness (decode_word BigEndian [b0, b1, b2, b3]) =
     endianness (decode_word LittleEndian [b0, b1, b2, b3]) \<and>
   (decode_word LittleEndian [b0, b1, b2, b3] = (0 :: 32 word) \<or>
    decode_word LittleEndian [b0, b1, b2, b3] = (- 1 :: 32 word) \<longrightarrow>
      decode_word BigEndian [b0, b1, b2, b3] = (decode_word LittleEndian [b0, b1, b2, b3] :: 32 word)) \<and>
   (map_of (files w) name = Some (b0 # b1 # b2 # b3 # rest) \<and>
    decode_word LittleEndian [b0, b1, b2, b3] \<noteq> (0 :: 32 word) \<and>
    decode_word LittleEndian [b0, b1, b2, b3] \<noteq> (- 1 :: 32 word) \<longrightarrow>
      readSheetHeaderAt cs name h w =
        (Panic ''Unrecognized endianness flag.'', h, w\<lparr>opened := opened w + 1\<rparr>))"
proof (intro conjI impI)
  show "endianness 0 = Ret LittleEndian"
    by (simp add: endianness_def)
  show "endianness (- 1) = Ret BigEndian"
    by (simp add: endianness_def)
  show "endianness flag = Panic ''Unrecognized endianness flag.''" if "flag \<noteq> 0 \<and> flag \<noteq> - 1"
    using that by (simp add: endianness_def)
  show "endianness (decode_word BigEndian [b0, b1, b2, b3]) =
     endianness (decode_word LittleEndian [b0, b1, b2, b3])"
    by (rule endianness_symmetric)
  show "decode_word BigEndian [b0, b1, b2, b3] = (decode_word LittleEndian [b0, b1, b2, b3] :: 32 word)"
    if "decode_word LittleEndian [b0, b1, b2, b3] = (0 :: 32 word) \<or>
        decode_word LittleEndian [b0, b1, b2, b3] = (- 1 :: 32 word)"
    using that by (rule flag_symmetric)
  show "readSheetHeaderAt cs name h w =
        (Panic ''Unrecognized endianness flag.'', h, w\<lparr>opened := opened w + 1\<rparr>)"
    if "map_of (files w) name = Some (b0 # b1 # b2 # b3 # rest) \<and>
        decode_word LittleEndian [b0, b1, b2, b3] \<noteq> (0 :: 32 word) \<and>
        decode_word LittleEndian [b0, b1, b2, b3] \<noteq> (- 1 :: 32 word)"
    using that readSheetHeaderAt_bad_flag by blast
qed

theorem endianness_flag_witness:
  "(1 :: 32 word) \<noteq> 0 \<and> (1 :: 32 word) \<noteq> - 1 \<and>
   endianness 1 = Panic ''Unrecognized endianness flag.'' \<and>
   decode_word LittleEndian [- 1, - 1, - 1, - 1] = (- 1 :: 32 word) \<and>
   decode_word BigEndian [- 1, - 1, - 1, - 1] = (- 1 :: 32 word) \<and>
   map_of (files \<lparr>files = [(''sheet.dat'', [1, 0, 0, 0, 120, 0, 0, 0])], faults = [], opened = 0, closed = 0\<rparr>)
     ''sheet.dat'' = Some [1, 0, 0, 0, 120, 0, 0, 0] \<and>
   decode_word LittleEndian [1, 0, 0, 0] \<noteq> (0 :: 32 word) \<and>
   decode_word LittleEndian [1, 0, 0, 0] \<noteq> (- 1 :: 32 word) \<and>
   readSheetHeaderAt 0 ''sheet.dat'' (zeroHeader 0)
     \<lparr>files = [(''sheet.dat'', [1, 0, 0, 0, 120, 0, 0, 0])], faults = [], opened = 0, closed = 0\<rparr> =
     (Panic ''Unrecognized endianness flag.'', zeroHeader 0,
      \<lparr>files = [(''sheet.dat'', [1, 0, 0, 0, 120, 0, 0, 0])], faults = [], opened = 1, closed = 0\<rparr>)"
proof -
  let ?w = "\<lparr>files = [(''sheet.dat'', [1, 0, 0, 0, 120, 0, 0, 0 :: byte])], faults = [], opened = 0, closed = 0\<rparr>"
  have a: "(1 :: 32 word) \<noteq> 0 \<and> (1 :: 32 word) \<noteq> - 1"
    by simp
  have m: "map_of (files ?w) ''sheet.dat'' = Some [1, 0, 0, 0, 120, 0, 0, 0]"
    by simp
  have d: "decode_word LittleEndian [1, 0, 0, 0] = (1 :: 32 word)"
    by (simp add: decode_word_def word_le_def)
  have o: "decode_word LittleEndian [- 1, - 1, - 1, - 1] = (- 1 :: 32 word)"
    using word_le_ones by (simp add: decode_word_def)
  have b: "decode_word BigEndian [- 1, - 1, - 1, - 1] = (- 1 :: 32 word)"
    using o endianness_flag [of 0 "- 1" "- 1" "- 1" "- 1" ?w "''sheet.dat''" "[]" 0 "zeroHeader 0"]
    by simp
  show ?thesis
    using a m d o b endianness_flag [of 1 1 0 0 0 ?w "''sheet.dat''" "[120, 0, 0, 0]" 0 "zeroHeader 0"]
    by simp
qed

section \<open>The declared header size\<close>

text \<open>C8. When the file starts with a valid endianness flag and its declared 4-byte header
  size, read in the detected byte order, differs from the fixed size of
  \<open>RawGotetraHeader\<close>, the header decoder returns a format error that carries both the
  expected and the found size, and the header buffer is returned as it was: no header field
  is read.\<close>

theorem header_size_mismatch:
  assumes "map_of (files w) name = Some (b0 # b1 # b2 # b3 # s0 # s1 # s2 # s3 # rest)"
    and "endianness (decode_word LittleEndian [b0, b1, b2, b3]) = Ret order"
    and "decode_word order [s0, s1, s2, s3] \<noteq> (word_of_nat (sizeofRaw cs) :: 32 word)"
  shows "readSheetHeaderAt cs name h w =
           (Ret (Inl (FormatError ''Expected catalog.SheetHeader size of %d, found %d.''
                        [D (int (sizeofRaw cs)),
                         D (sint (decode_word order [s0, s1, s2, s3] :: 32 word))])),
            h, w\<lparr>opened := opened w + 1\<rparr>)"
  using assms
  by (simp add: readSheetHeaderAt_def OpenFile_def readInt32_def read_bytes_4 read_bytes_4_4)

theorem header_size_mismatch_witness:
  "map_of (files (sample_world (put_le 4 0 @ put_le 4 119 @ sample_header 1 1 1))) ''sheet.dat'' =
     Some (0 # 0 # 0 # 0 # 119 # 0 # 0 # 0 # sample_header 1 1 1) \<and>
   endianness (decode_word LittleEndian [0, 0, 0, 0]) = Ret LittleEndian \<and>
   decode_word LittleEndian [119, 0, 0, 0] \<noteq> (word_of_nat (sizeofRaw 0) :: 32 word) \<and>
   readSheetHeaderAt 0 ''sheet.dat'' (zeroHeader 0)
     (sample_world (put_le 4 0 @ put_le 4 119 @ sample_header 1 1 1)) =
     (Ret (Inl (FormatError ''Expected catalog.SheetHeader size of %d, found %d.''
                  [D (int (sizeofRaw 0)), D (sint (decode_word LittleEndian [119, 0, 0, 0] :: 32 word))])),
      zeroHeader 0,
      (sample_world (put_le 4 0 @ put_le 4 119 @ sample_header 1 1 1))
        \<lparr>opened := opened (sample_world (put_le 4 0 @ put_le 4 119 @ sample_header 1 1 1)) + 1\<rparr>)"
proof -
  let ?w = "sample_world (put_le 4 0 @ put_le 4 119 @ sample_header 1 1 1)"
  have m: "map_of (files ?w) ''sheet.dat'' =
     Some (0 # 0 # 0 # 0 # 119 # 0 # 0 # 0 # sample_header 1 1 1)"
    by code_simp
  have e: "endianness (decode_word LittleEndian [0, 0, 0, 0]) = Ret LittleEndian"
    by (simp add: endianness_def decode_word_def word_le_def)
  have n: "decode_word LittleEndian [119, 0, 0, 0] \<noteq> (word_of_nat (sizeofRaw 0) :: 32 word)"
    by (simp add: decode_word_def word_le_def sizeofRaw_def)
  show ?thesis
    using m e n header_size_mismatch [OF m e n, of "zeroHeader 0"] by blast
qed

section \<open>File handles\<close>

text \<open>C5. The decoders are meant to close the handle they open on every path. They do not:
  the early error returns skip the close. On a file with a wrong declared header size
  \<open>ReadSheetHeaderAt\<close> returns with one handle opened and none closed, and on a
  vector-count mismatch \<open>readSheetPositionsAt\<close> does the same.\<close>

theorem handle_not_closed:
  "ReadSheetHeaderAt 0 ''sheet.dat'' (zeroHeader 0)
     (sample_world (put_le 4 0 @ put_le 4 119 @ sample_header 1 1 1)) =
     (Ret (Some (FormatError ''Expected catalog.SheetHeader size of %d, found %d.'' [D 120, D 119])),
      zeroHeader 0,
      \<lparr>files = [(''sheet.dat'', put_le 4 0 @ put_le 4 119 @ sample_header 1 1 1)], faults = [],
       opened = 1, closed = 0\<rparr>) \<and>
   fst (readSheetPositionsAt 0 ''sheet.dat'' [(0, 0, 0)] (sample_world (sample_file 1 1 0 0))) =
     Ret (Some (FormatError ''Position buffer has length %d, but file %s has %d vectors.''
                  [D 1, S ''sheet.dat'', D 0])) \<and>
   opened (snd (snd (readSheetPositionsAt 0 ''sheet.dat'' [(0, 0, 0)]
                       (sample_world (sample_file 1 1 0 0))))) = 1 \<and>
   closed (snd (snd (readSheetPositionsAt 0 ''sheet.dat'' [(0, 0, 0)]
                       (sample_world (sample_file 1 1 0 0))))) = 0"
  by code_simp

section \<open>What the constructor allocates\<close>

text \<open>When the cubes of both widths of the header fit a Go \<^verbatim>\<open>int\<close>, the buffer that
  \<open>NewGotetraBuffer\<close> returns is closed and has arrays of exactly these lengths.\<close>

lemma sint_mult_exact:
  fixes a b :: "64 word"
  assumes "- (2 ^ 63) \<le> sint a * sint b" and "sint a * sint b < 2 ^ 63"
  shows "sint (a * b) = sint a * sint b"
proof -
  have "sint (a * b) = signed_take_bit 63 (sint a * sint b)"
    by (simp add: sint_word_ariths)
  also have "\<dots> = sint a * sint b"
    using assms by (intro signed_take_bit_int_eq_self) simp_all
  finally show ?thesis .
qed

lemma sint_cube:
  fixes g :: "64 word"
  assumes "0 \<le> sint g" and "sint g ^ 3 < 2 ^ 63"
  shows "sint (g * g * g) = sint g ^ 3"
proof -
  let ?k = "sint g"
  have sq: "?k * ?k \<le> ?k ^ 3"
  proof (cases "?k = 0")
    case True
    then show ?thesis by simp
  next
    case False
    then have "1 \<le> ?k" using assms(1) by linarith
    then have "?k * ?k * 1 \<le> ?k * ?k * ?k"
      using assms(1) by (intro mult_left_mono) simp_all
    then show ?thesis by (simp add: power3_eq_cube)
  qed
  have neg: "- (2 ^ 63) \<le> (0::int)" by simp
  have "0 \<le> ?k * ?k" by simp
  with neg have lo2: "- (2 ^ 63) \<le> ?k * ?k" by (rule order_trans)
  have hi2: "?k * ?k < 2 ^ 63" using sq assms(2) by linarith
  have g2: "sint (g * g) = ?k * ?k"
    using lo2 hi2 by (rule sint_mult_exact)
  have "0 \<le> ?k * ?k * ?k" using assms(1) by simp
  with neg have lo3: "- (2 ^ 63) \<le> sint (g * g) * ?k" unfolding g2 by (rule order_trans)
  have hi3: "sint (g * g) * ?k < 2 ^ 63"
    unfolding g2 using assms(2) by (simp add: power3_eq_cube)
  have "sint (g * g * g) = sint (g * g) * ?k"
    using lo3 hi3 by (rule sint_mult_exact)
  then show ?thesis
    by (simp add: g2 power3_eq_cube)
qed

lemma NewGotetraBuffer_sized:
  assumes "fst (NewGotetraBuffer cs fname w) = Ret (Inr buf)"
    and "0 \<le> sw buf" and "0 \<le> gw buf" and "sw buf ^ 3 < 2 ^ 63" and "gw buf ^ 3 < 2 ^ 63"
  shows "sized buf \<and> \<not> open buf"
proof -
  obtain r h w1 where rh: "ReadSheetHeaderAt cs fname (zeroHeader cs) w = (r, h, w1)"
    by (cases "ReadSheetHeaderAt cs fname (zeroHeader cs) w")
  let ?s = "SegmentWidth (Raw h)" and ?g = "GridWidth (Raw h)"
  have b: "buf = \<lparr>open = False, sheet = replicate (nat (sint (?g * ?g * ?g))) (0, 0, 0),
                 out = replicate (nat (sint (?s * ?s * ?s))) (0, 0, 0),
                 sw = sint ?s, gw = sint ?g, hdr = zeroHeader cs\<rparr>"
    using assms(1) rh
    by (auto simp: NewGotetraBuffer_def make_slice_def Let_def split: go.splits option.splits if_splits)
  have f: "sw buf = sint ?s" "gw buf = sint ?g" "\<not> open buf"
    "length (sheet buf) = nat (sint (?g * ?g * ?g))" "length (out buf) = nat (sint (?s * ?s * ?s))"
    by (simp_all add: b)
  have "sint (?g * ?g * ?g) = gw buf ^ 3" "sint (?s * ?s * ?s) = sw buf ^ 3"
    using sint_cube [of ?g] sint_cube [of ?s] assms(2-5) f(1,2) by simp_all
  then show ?thesis
    using f assms(2-5) by (simp add: sized_def)
qed

section \<open>Index arithmetic\<close>

lemma wrap64_id: "- (2 ^ 63) \<le> i \<Longrightarrow> i < 2 ^ 63 \<Longrightarrow> wrap64 i = i"
  by (simp add: wrap64_def)

lemma cube_bound:
  fixes w x y z :: int
  assumes "0 \<le> x" "x < w" "0 \<le> y" "y < w" "0 \<le> z" "z < w"
  shows "0 \<le> x + y * w + z * w * w" and "x + y * w + z * w * w < w ^ 3"
proof -
  have w: "0 \<le> w" using assms by linarith
  show "0 \<le> x + y * w + z * w * w"
    using assms w by simp
  have a: "y * w \<le> (w - 1) * w"
    using assms w by (intro mult_right_mono) simp_all
  have b: "z * w * w \<le> (w - 1) * w * w"
    using assms w by (intro mult_right_mono) simp_all
  have c: "(w - 1) + (w - 1) * w + (w - 1) * w * w = w ^ 3 - 1"
    by (simp add: algebra_simps power3_eq_cube)
  show "x + y * w + z * w * w < w ^ 3"
    using a b c assms(2) by linarith
qed

lemma index3_exact:
  assumes "0 \<le> x" "x < w" "0 \<le> y" "y < w" "0 \<le> z" "z < w" "w ^ 3 < 2 ^ 63"
  shows "index3 w x y z = x + y * w + z * w * w"
proof -
  have "0 \<le> x + y * w + z * w * w" "x + y * w + z * w * w < w ^ 3"
    using cube_bound [of x w y z] assms by simp_all
  then show ?thesis
    using assms(7) by (simp add: index3_def wrap64_id)
qed

text \<open>The same with a larger width: coordinates below \<open>s\<close> index a cube of width \<open>g \<ge> s\<close>.\<close>

lemma index3_exact_sub:
  assumes "0 \<le> x" "x < s" "0 \<le> y" "y < s" "0 \<le> z" "z < s" "s \<le> g" "g ^ 3 < 2 ^ 63"
  shows "index3 g x y z = x + y * g + z * g * g" and "x + y * g + z * g * g < g ^ 3"
    and "0 \<le> x + y * g + z * g * g"
  using index3_exact [of x g y z] cube_bound [of x g y z] assms by simp_all

section \<open>What the extraction loops compute\<close>

text \<open>A loop that returns has found every index in range, has written each visited cell
  of the output from the matching cell of the sheet, and has left the cells below its
  starting point alone.\<close>

lemma in_bounds_update [simp]: "in_bounds i (xs[j := v]) = in_bounds i xs"
  by (simp add: in_bounds_def)

lemma loop_x_sound:
  assumes "loop_x s g sh z y x ot = (Ret (), ot')" and "0 \<le> x" and "0 \<le> c"
    and "\<forall>x'. 0 \<le> x' \<and> x' < s \<longrightarrow> index3 s x' y z = c + x'"
  shows "(\<forall>j. j < nat (c + x) \<longrightarrow> ot' ! j = ot ! j) \<and>
         (\<forall>x'. x \<le> x' \<and> x' < s \<longrightarrow>
            ot' ! nat (c + x') = sh ! nat (index3 g x' y z) \<and>
            in_bounds (index3 g x' y z) sh \<and> in_bounds (c + x') ot)"
  using assms
proof (induction s g sh z y x ot rule: loop_x.induct)
  case (1 s g sh z y x ot)
  show ?case
  proof (cases "x < s")
    case False
    have "ot' = ot"
      using "1.prems"(1) False by (subst (asm) loop_x.simps) simp
    moreover have "\<not> (x \<le> x' \<and> x' < s)" for x'
      using False by linarith
    ultimately show ?thesis
      by blast
  next
    case True
    have ix: "index3 s x y z = c + x"
      using "1.prems" True by simp
    have ib: "in_bounds (index3 g x y z) sh \<and> in_bounds (c + x) ot"
      using "1.prems"(1) True ix by (subst (asm) loop_x.simps) (simp split: if_splits)
    let ?ot1 = "ot[nat (index3 s x y z) := sh ! nat (index3 g x y z)]"
    have step: "loop_x s g sh z y (x + 1) ?ot1 = (Ret (), ot')"
      using "1.prems"(1) True ib ix by (subst (asm) loop_x.simps) simp
    have ih: "(\<forall>j. j < nat (c + (x + 1)) \<longrightarrow> ot' ! j = ?ot1 ! j) \<and>
         (\<forall>x'. x + 1 \<le> x' \<and> x' < s \<longrightarrow>
            ot' ! nat (c + x') = sh ! nat (index3 g x' y z) \<and>
            in_bounds (index3 g x' y z) sh \<and> in_bounds (c + x') ?ot1)"
      using "1.IH" [OF True _ step] ib ix "1.prems"(2,3,4) by simp
    have low: "ot' ! j = ot ! j" if "j < nat (c + x)" for j
    proof -
      have "j < nat (c + (x + 1))" using that by simp
      then have "ot' ! j = ?ot1 ! j" using ih by blast
      also have "\<dots> = ot ! j" using that ix by simp
      finally show ?thesis .
    qed
    have here: "ot' ! nat (c + x) = sh ! nat (index3 g x y z)"
    proof -
      have "nat (c + x) < nat (c + (x + 1))"
        using "1.prems"(2,3) by simp
      then have "ot' ! nat (c + x) = ?ot1 ! nat (c + x)" using ih by blast
      also have "\<dots> = sh ! nat (index3 g x y z)"
      proof -
        have "nat (c + x) < length ot"
          using ib "1.prems"(2,3) by (simp add: in_bounds_def nat_less_iff)
        then show ?thesis
          by (simp add: ix)
      qed
      finally show ?thesis .
    qed
    have rest: "ot' ! nat (c + x') = sh ! nat (index3 g x' y z) \<and>
            in_bounds (index3 g x' y z) sh \<and> in_bounds (c + x') ot"
      if "x \<le> x' \<and> x' < s" for x'
    proof (cases "x' = x")
      case True
      with here ib show ?thesis by simp
    next
      case False
      with that have "x + 1 \<le> x' \<and> x' < s" by simp
      with ih show ?thesis by simp
    qed
    show ?thesis
      using low rest by blast
  qed
qed

lemma in_bounds_length: "length xs = length ys \<Longrightarrow> in_bounds i xs = in_bounds i ys"
  by (simp add: in_bounds_def)

lemma loop_y_sound:
  assumes "loop_y s g sh z y ot = (Ret (), ot')" and "0 \<le> y" and "0 \<le> c"
    and "\<forall>x' y'. 0 \<le> x' \<and> x' < s \<and> 0 \<le> y' \<and> y' < s \<longrightarrow> index3 s x' y' z = c + y' * s + x'"
  shows "(\<forall>j. j < nat (c + y * s) \<longrightarrow> ot' ! j = ot ! j) \<and>
         (\<forall>x' y'. y \<le> y' \<and> y' < s \<and> 0 \<le> x' \<and> x' < s \<longrightarrow>
            ot' ! nat (c + y' * s + x') = sh ! nat (index3 g x' y' z) \<and>
            in_bounds (index3 g x' y' z) sh \<and> in_bounds (c + y' * s + x') ot)"
  using assms
proof (induction s g sh z y ot rule: loop_y.induct)
  case (1 s g sh z y ot)
  show ?case
  proof (cases "y < s")
    case False
    have "ot' = ot"
      using "1.prems"(1) False by (subst (asm) loop_y.simps) simp
    moreover have "\<not> (y \<le> y' \<and> y' < s \<and> 0 \<le> x' \<and> x' < s)" for x' y'
      using False by linarith
    ultimately show ?thesis
      by blast
  next
    case True
    have s0: "0 \<le> s" using True "1.prems"(2) by linarith
    have ys: "0 \<le> y * s" using "1.prems"(2) s0 by simp
    obtain r ot1 where lx: "loop_x s g sh z y 0 ot = (r, ot1)"
      by (cases "loop_x s g sh z y 0 ot")
    have r: "r = Ret ()"
      using "1.prems"(1) True lx by (subst (asm) loop_y.simps) (simp split: go.splits)
    have step: "loop_y s g sh z (y + 1) ot1 = (Ret (), ot')"
      using "1.prems"(1) True lx r by (subst (asm) loop_y.simps) simp
    have len: "length ot1 = length ot"
      using loop_x_length [of s g sh z y 0 ot] lx by simp
    have row: "(\<forall>j. j < nat ((c + y * s) + 0) \<longrightarrow> ot1 ! j = ot ! j) \<and>
         (\<forall>x'. 0 \<le> x' \<and> x' < s \<longrightarrow>
            ot1 ! nat ((c + y * s) + x') = sh ! nat (index3 g x' y z) \<and>
            in_bounds (index3 g x' y z) sh \<and> in_bounds ((c + y * s) + x') ot)"
    proof (rule loop_x_sound)
      show "loop_x s g sh z y 0 ot = (Ret (), ot1)" using lx r by simp
      show "(0::int) \<le> 0" by simp
      show "0 \<le> c + y * s" using "1.prems"(3) ys by simp
      show "\<forall>x'. 0 \<le> x' \<and> x' < s \<longrightarrow> index3 s x' y z = c + y * s + x'"
        using "1.prems"(2,4) True by simp
    qed
    have ih: "(\<forall>j. j < nat (c + (y + 1) * s) \<longrightarrow> ot' ! j = ot1 ! j) \<and>
         (\<forall>x' y'. y + 1 \<le> y' \<and> y' < s \<and> 0 \<le> x' \<and> x' < s \<longrightarrow>
            ot' ! nat (c + y' * s + x') = sh ! nat (index3 g x' y' z) \<and>
            in_bounds (index3 g x' y' z) sh \<and> in_bounds (c + y' * s + x') ot1)"
      using "1.IH" [OF True lx [symmetric] _ step] r "1.prems"(2,3,4) by simp
    have next_row: "(y + 1) * s = y * s + s"
      by (simp add: algebra_simps)
    have low: "ot' ! j = ot ! j" if "j < nat (c + y * s)" for j
    proof -
      have "j < nat (c + (y + 1) * s)" using that s0 by (simp add: next_row)
      then have "ot' ! j = ot1 ! j" using ih by blast
      also have "\<dots> = ot ! j" using that row by simp
      finally show ?thesis .
    qed
    have here: "ot' ! nat (c + y * s + x') = sh ! nat (index3 g x' y z)"
      if "0 \<le> x' \<and> x' < s" for x'
    proof -
      have "nat (c + y * s + x') < nat (c + (y + 1) * s)"
        using that "1.prems"(3) ys by (simp add: next_row)
      then have "ot' ! nat (c + y * s + x') = ot1 ! nat (c + y * s + x')" using ih by blast
      also have "\<dots> = sh ! nat (index3 g x' y z)" using that row by blast
      finally show ?thesis .
    qed
    have rest: "ot' ! nat (c + y' * s + x') = sh ! nat (index3 g x' y' z) \<and>
            in_bounds (index3 g x' y' z) sh \<and> in_bounds (c + y' * s + x') ot"
      if "y \<le> y' \<and> y' < s \<and> 0 \<le> x' \<and> x' < s" for x' y'
    proof (cases "y' = y")
      case True
      with here [of x'] row that show ?thesis by blast
    next
      case False
      with that have "y + 1 \<le> y' \<and> y' < s \<and> 0 \<le> x' \<and> x' < s" by simp
      with ih in_bounds_length [OF len] show ?thesis by simp
    qed
    show ?thesis
      using low rest by blast
  qed
qed

lemma loop_z_sound:
  assumes "loop_z s g sh z ot = (Ret (), ot')" and "0 \<le> z"
    and "\<forall>x' y' z'. 0 \<le> x' \<and> x' < s \<and> 0 \<le> y' \<and> y' < s \<and> 0 \<le> z' \<and> z' < s \<longrightarrow>
           index3 s x' y' z' = z' * s * s + y' * s + x'"
  shows "(\<forall>j. j < nat (z * s * s) \<longrightarrow> ot' ! j = ot ! j) \<and>
         (\<forall>x' y' z'. z \<le> z' \<and> z' < s \<and> 0 \<le> y' \<and> y' < s \<and> 0 \<le> x' \<and> x' < s \<longrightarrow>
            ot' ! nat (z' * s * s + y' * s + x') = sh ! nat (index3 g x' y' z') \<and>
            in_bounds (index3 g x' y' z') sh \<and> in_bounds (z' * s * s + y' * s + x') ot)"
  using assms
proof (induction s g sh z ot rule: loop_z.induct)
  case (1 s g sh z ot)
  show ?case
  proof (cases "z < s")
    case False
    have "ot' = ot"
      using "1.prems"(1) False by (subst (asm) loop_z.simps) simp
    moreover have "\<not> (z \<le> z' \<and> z' < s \<and> 0 \<le> y' \<and> y' < s \<and> 0 \<le> x' \<and> x' < s)" for x' y' z'
      using False by linarith
    ultimately show ?thesis
      by blast
  next
    case True
    have s0: "0 \<le> s" using True "1.prems"(2) by linarith
    have zs: "0 \<le> z * s * s" using "1.prems"(2) s0 by simp
    obtain r ot1 where ly: "loop_y s g sh z 0 ot = (r, ot1)"
      by (cases "loop_y s g sh z 0 ot")
    have r: "r = Ret ()"
      using "1.prems"(1) True ly by (subst (asm) loop_z.simps) (simp split: go.splits)
    have step: "loop_z s g sh (z + 1) ot1 = (Ret (), ot')"
      using "1.prems"(1) True ly r by (subst (asm) loop_z.simps) simp
    have len: "length ot1 = length ot"
      using loop_y_length [of s g sh z 0 ot] ly by simp
    have plane: "(\<forall>j. j < nat (z * s * s + 0 * s) \<longrightarrow> ot1 ! j = ot ! j) \<and>
         (\<forall>x' y'. 0 \<le> y' \<and> y' < s \<and> 0 \<le> x' \<and> x' < s \<longrightarrow>
            ot1 ! nat (z * s * s + y' * s + x') = sh ! nat (index3 g x' y' z) \<and>
            in_bounds (index3 g x' y' z) sh \<and> in_bounds (z * s * s + y' * s + x') ot)"
    proof (rule loop_y_sound)
      show "loop_y s g sh z 0 ot = (Ret (), ot1)" using ly r by simp
      show "(0::int) \<le> 0" by simp
      show "0 \<le> z * s * s" by (rule zs)
      show "\<forall>x' y'. 0 \<le> x' \<and> x' < s \<and> 0 \<le> y' \<and> y' < s \<longrightarrow>
              index3 s x' y' z = z * s * s + y' * s + x'"
        using "1.prems"(2,3) True by simp
    qed
    have ih: "(\<forall>j. j < nat ((z + 1) * s * s) \<longrightarrow> ot' ! j = ot1 ! j) \<and>
         (\<forall>x' y' z'. z + 1 \<le> z' \<and> z' < s \<and> 0 \<le> y' \<and> y' < s \<and> 0 \<le> x' \<and> x' < s \<longrightarrow>
            ot' ! nat (z' * s * s + y' * s + x') = sh ! nat (index3 g x' y' z') \<and>
            in_bounds (index3 g x' y' z') sh \<and> in_bounds (z' * s * s + y' * s + x') ot1)"
      using "1.IH" [OF True ly [symmetric] _ step] r "1.prems"(2,3) by simp
    have next_plane: "(z + 1) * s * s = z * s * s + s * s"
      by (simp add: algebra_simps)
    have inner: "y' * s + x' < s * s" if "0 \<le> y' \<and> y' < s \<and> 0 \<le> x' \<and> x' < s" for x' y'
    proof -
      have "y' * s \<le> (s - 1) * s"
        using that s0 by (intro mult_right_mono) simp_all
      moreover have "(s - 1) * s = s * s - s"
        by (simp add: algebra_simps)
      ultimately show ?thesis
        using that by linarith
    qed
    have inner0: "0 \<le> y' * s + x'" if "0 \<le> y' \<and> y' < s \<and> 0 \<le> x' \<and> x' < s" for x' y'
      using that s0 by simp
    have low: "ot' ! j = ot ! j" if "j < nat (z * s * s)" for j
    proof -
      have "0 \<le> s * s" using s0 by simp
      then have "nat (z * s * s) \<le> nat ((z + 1) * s * s)"
        unfolding next_plane by linarith
      then have "j < nat ((z + 1) * s * s)" using that by linarith
      then have "ot' ! j = ot1 ! j" using ih by blast
      also have "\<dots> = ot ! j" using that plane by simp
      finally show ?thesis .
    qed
    have here: "ot' ! nat (z * s * s + y' * s + x') = sh ! nat (index3 g x' y' z)"
      if "0 \<le> y' \<and> y' < s \<and> 0 \<le> x' \<and> x' < s" for x' y'
    proof -
      have "z * s * s + y' * s + x' < (z + 1) * s * s"
        using inner [OF that] by (simp add: next_plane)
      moreover have "0 \<le> z * s * s + y' * s + x'"
        using inner0 [OF that] zs by linarith
      ultimately have "nat (z * s * s + y' * s + x') < nat ((z + 1) * s * s)"
        by linarith
      then have "ot' ! nat (z * s * s + y' * s + x') = ot1 ! nat (z * s * s + y' * s + x')"
        using ih by blast
      also have "\<dots> = sh ! nat (index3 g x' y' z)" using that plane by blast
      finally show ?thesis .
    qed
    have rest: "ot' ! nat (z' * s * s + y' * s + x') = sh ! nat (index3 g x' y' z') \<and>
            in_bounds (index3 g x' y' z') sh \<and> in_bounds (z' * s * s + y' * s + x') ot"
      if "z \<le> z' \<and> z' < s \<and> 0 \<le> y' \<and> y' < s \<and> 0 \<le> x' \<and> x' < s" for x' y' z'
    proof (cases "z' = z")
      case True
      with here [of y' x'] plane that show ?thesis by blast
    next
      case False
      with that have "z + 1 \<le> z' \<and> z' < s \<and> 0 \<le> y' \<and> y' < s \<and> 0 \<le> x' \<and> x' < s" by simp
      with ih in_bounds_length [OF len] show ?thesis by simp
    qed
    show ?thesis
      using low rest by blast
  qed
qed

section \<open>When the extraction loops return\<close>

lemma loop_x_complete:
  assumes "\<forall>x'. x \<le> x' \<and> x' < s \<longrightarrow>
             in_bounds (index3 g x' y z) sh \<and> in_bounds (index3 s x' y z) ot"
  shows "fst (loop_x s g sh z y x ot) = Ret ()"
  using assms
proof (induction s g sh z y x ot rule: loop_x.induct)
  case (1 s g sh z y x ot)
  show ?case
  proof (cases "x < s")
    case False
    then show ?thesis by (subst loop_x.simps) simp
  next
    case True
    have ib: "in_bounds (index3 g x y z) sh \<and> in_bounds (index3 s x y z) ot"
      using "1.prems" True by simp
    have "fst (loop_x s g sh z y (x + 1) (ot[nat (index3 s x y z) := sh ! nat (index3 g x y z)])) = Ret ()"
      using "1.IH" [OF True] ib "1.prems" by simp
    then show ?thesis
      using True ib by (subst loop_x.simps) simp
  qed
qed

lemma loop_y_complete:
  assumes "\<forall>x' y'. y \<le> y' \<and> y' < s \<and> 0 \<le> x' \<and> x' < s \<longrightarrow>
             in_bounds (index3 g x' y' z) sh \<and> in_bounds (index3 s x' y' z) ot"
  shows "fst (loop_y s g sh z y ot) = Ret ()"
  using assms
proof (induction s g sh z y ot rule: loop_y.induct)
  case (1 s g sh z y ot)
  show ?case
  proof (cases "y < s")
    case False
    then show ?thesis by (subst loop_y.simps) simp
  next
    case True
    obtain r ot1 where lx: "loop_x s g sh z y 0 ot = (r, ot1)"
      by (cases "loop_x s g sh z y 0 ot")
    have "fst (loop_x s g sh z y 0 ot) = Ret ()"
      using "1.prems" True by (intro loop_x_complete) simp
    then have r: "r = Ret ()" using lx by simp
    have len: "length ot1 = length ot"
      using loop_x_length [of s g sh z y 0 ot] lx by simp
    have "fst (loop_y s g sh z (y + 1) ot1) = Ret ()"
      using "1.IH" [OF True lx [symmetric]] r "1.prems" in_bounds_length [OF len] by simp
    then show ?thesis
      using True lx r by (subst loop_y.simps) simp
  qed
qed

lemma loop_z_complete:
  assumes "\<forall>x' y' z'. z \<le> z' \<and> z' < s \<and> 0 \<le> y' \<and> y' < s \<and> 0 \<le> x' \<and> x' < s \<longrightarrow>
             in_bounds (index3 g x' y' z') sh \<and> in_bounds (index3 s x' y' z') ot"
  shows "fst (loop_z s g sh z ot) = Ret ()"
  using assms
proof (induction s g sh z ot rule: loop_z.induct)
  case (1 s g sh z ot)
  show ?case
  proof (cases "z < s")
    case False
    then show ?thesis by (subst loop_z.simps) simp
  next
    case True
    obtain r ot1 where ly: "loop_y s g sh z 0 ot = (r, ot1)"
      by (cases "loop_y s g sh z 0 ot")
    have "fst (loop_y s g sh z 0 ot) = Ret ()"
      using "1.prems" True by (intro loop_y_complete) simp
    then have r: "r = Ret ()" using ly by simp
    have len: "length ot1 = length ot"
      using loop_y_length [of s g sh z 0 ot] ly by simp
    have "fst (loop_z s g sh (z + 1) ot1) = Ret ()"
      using "1.IH" [OF True ly [symmetric]] r "1.prems" in_bounds_length [OF len] by simp
    then show ?thesis
      using True ly r by (subst loop_z.simps) simp
  qed
qed

text \<open>The readers panic with two messages only.\<close>

lemma readSheetHeaderAt_panics:
  "fst (readSheetHeaderAt cs name h w) = Panic p \<Longrightarrow>
   p = ''readInt32: unexpected EOF'' \<or> p = ''Unrecognized endianness flag.''"
  unfolding readSheetHeaderAt_def
  by (auto simp: readInt32_def endianness_def split: prod.splits go.splits sum.splits option.splits if_splits)

lemma readSheetPositionsAt_panics:
  "fst (readSheetPositionsAt cs name xs w) = Panic p \<Longrightarrow>
   p = ''readInt32: unexpected EOF'' \<or> p = ''Unrecognized endianness flag.''"
proof -
  assume a: "fst (readSheetPositionsAt cs name xs w) = Panic p"
  obtain r h w1 where rh: "readSheetHeaderAt cs name (zeroHeader cs) w = (r, h, w1)"
    by (cases "readSheetHeaderAt cs name (zeroHeader cs) w")
  have "r = Panic p"
    using a rh
    by (auto simp: readSheetPositionsAt_def Let_def CloseFile_def
        split: go.splits sum.splits option.splits if_splits prod.splits)
  then show ?thesis
    using readSheetHeaderAt_panics [of cs name "zeroHeader cs" w p] rh by simp
qed

section \<open>The extracted sub-cube\<close>

lemma sized_indices:
  assumes "sized buf" and "sw buf \<le> gw buf"
    and "0 \<le> x \<and> x < sw buf \<and> 0 \<le> y \<and> y < sw buf \<and> 0 \<le> z \<and> z < sw buf"
  shows "index3 (gw buf) x y z = x + y * gw buf + z * gw buf * gw buf"
    and "index3 (sw buf) x y z = x + y * sw buf + z * sw buf * sw buf"
    and "in_bounds (x + y * gw buf + z * gw buf * gw buf) (sheet buf)"
    and "in_bounds (x + y * sw buf + z * sw buf * sw buf) (out buf)"
proof -
  have g3: "gw buf ^ 3 < 2 ^ 63" and s3: "sw buf ^ 3 < 2 ^ 63"
    and lsh: "int (length (sheet buf)) = gw buf ^ 3" and lot: "int (length (out buf)) = sw buf ^ 3"
    using assms(1) by (simp_all add: sized_def)
  show "index3 (gw buf) x y z = x + y * gw buf + z * gw buf * gw buf"
    using index3_exact_sub(1) [of x "sw buf" y z "gw buf"] assms(2,3) g3 by simp
  show "index3 (sw buf) x y z = x + y * sw buf + z * sw buf * sw buf"
    using index3_exact [of x "sw buf" y z] assms(3) s3 by simp
  show "in_bounds (x + y * gw buf + z * gw buf * gw buf) (sheet buf)"
    using index3_exact_sub(2,3) [of x "sw buf" y z "gw buf"] assms(2,3) g3 lsh
    by (simp add: in_bounds_def)
  show "in_bounds (x + y * sw buf + z * sw buf * sw buf) (out buf)"
    using cube_bound [of x "sw buf" y z] assms(3) lot
    by (simp add: in_bounds_def)
qed

lemma Read_index_panic:
  assumes "\<And>sh. length sh = length (sheet buf) \<Longrightarrow>
             fst (loop_z (sw buf) (gw buf) sh 0 (out buf)) = Ret ()"
  shows "fst (Read cs fname buf w) \<noteq> Panic ''index out of range''"
proof (cases "open buf")
  case True
  then show ?thesis by (simp add: Read_def)
next
  case False
  obtain r xs w1 where rp: "readSheetPositionsAt cs fname (sheet buf) w = (r, xs, w1)"
    by (cases "readSheetPositionsAt cs fname (sheet buf) w")
  have lx: "length xs = length (sheet buf)"
    using readSheetPositionsAt_length [of cs fname "sheet buf" w] rp by simp
  obtain q ot where lz: "loop_z (sw buf) (gw buf) xs 0 (out buf) = (q, ot)"
    by (cases "loop_z (sw buf) (gw buf) xs 0 (out buf)")
  have q: "q = Ret ()"
    using assms [OF lx] lz by simp
  show ?thesis
  proof (cases r)
    case (Panic p)
    then have "p = ''readInt32: unexpected EOF'' \<or> p = ''Unrecognized endianness flag.''"
      using readSheetPositionsAt_panics [of cs fname "sheet buf" w p] rp by simp
    then show ?thesis
      using False rp Panic by (auto simp: Read_def Let_def)
  next
    case (Ret e)
    then show ?thesis
      using False rp lz q by (simp add: Read_def Let_def split: option.splits)
  qed
qed

lemma sized_loops_return:
  assumes "sized buf" and "sw buf \<le> gw buf" and "length sh = length (sheet buf)"
  shows "fst (loop_z (sw buf) (gw buf) sh 0 (out buf)) = Ret ()"
proof (rule loop_z_complete, intro allI impI)
  fix x' y' z'
  assume r: "0 \<le> z' \<and> z' < sw buf \<and> 0 \<le> y' \<and> y' < sw buf \<and> 0 \<le> x' \<and> x' < sw buf"
  then have r': "0 \<le> x' \<and> x' < sw buf \<and> 0 \<le> y' \<and> y' < sw buf \<and> 0 \<le> z' \<and> z' < sw buf"
    by simp
  show "in_bounds (index3 (gw buf) x' y' z') sh \<and> in_bounds (index3 (sw buf) x' y' z') (out buf)"
    using sized_indices [OF assms(1,2) r'] in_bounds_length [OF assms(3)] by simp
qed

lemma loop_z_no_rounds: "s \<le> 0 \<Longrightarrow> loop_z s g sh 0 ot = (Ret (), ot)"
  by (subst loop_z.simps) simp

text \<open>The claim that \<open>sw \<le> gw\<close> alone keeps every index in bounds is false. The
  constructor computes the length of \<open>sheet\<close> as \<^verbatim>\<open>gw*gw*gw\<close> in \<^verbatim>\<open>int64\<close>, which wraps
  around: a header with segment width 1, grid width \<open>2\<^sup>2\<^sup>2\<close> and grid count 0 gives an empty
  sheet, and \<open>Read\<close> then panics on the first cell.\<close>

theorem allocation_overflow_counterexample:
  "fst (NewGotetraBuffer 0 ''sheet.dat'' (sample_world (sample_file 1 4194304 0 0))) =
     Ret (Inr \<lparr>open = False, sheet = [], out = [(0, 0, 0)], sw = 1, gw = 4194304,
               hdr = zeroHeader 0\<rparr>) \<and>
   (1 :: int) \<le> 4194304 \<and>
   fst (Read 0 ''sheet.dat''
          \<lparr>open = False, sheet = [], out = [(0, 0, 0)], sw = 1, gw = 4194304, hdr = zeroHeader 0\<rparr>
          (snd (NewGotetraBuffer 0 ''sheet.dat'' (sample_world (sample_file 1 4194304 0 0))))) =
     Panic ''index out of range''"
  by code_simp

text \<open>C4 (amended). For a buffer that \<open>NewGotetraBuffer\<close> returned, under the
  preconditions that the segment width does not exceed the grid width and that the cube of
  the grid width fits a Go \<^verbatim>\<open>int\<close> (\<open>gw\<^sup>3 < 2\<^sup>6\<^sup>3\<close>, so that the products of the
  constructor do not wrap around), every index the extraction loop computes is in bounds:
  for all \<open>0 \<le> x, y, z < sw\<close> the source index \<open>x + y\<cdot>gw + z\<cdot>gw\<^sup>2\<close> is computed without
  wrap-around and is below \<open>gw\<^sup>3\<close>, the length of \<open>sheet\<close>, and the destination index
  \<open>x + y\<cdot>sw + z\<cdot>sw\<^sup>2\<close> is below \<open>sw\<^sup>3\<close>, the length of \<open>out\<close>. So the loops return
  for every sheet of that length, and \<open>Read\<close> never panics with an index out of range.\<close>

theorem extraction_in_bounds:
  assumes "fst (NewGotetraBuffer cs0 fname0 w0) = Ret (Inr buf)"
    and "sw buf \<le> gw buf" and "gw buf ^ 3 < 2 ^ 63"
  shows "(\<forall>x y z. 0 \<le> x \<and> x < sw buf \<and> 0 \<le> y \<and> y < sw buf \<and> 0 \<le> z \<and> z < sw buf \<longrightarrow>
            index3 (gw buf) x y z = x + y * gw buf + z * gw buf * gw buf \<and>
            0 \<le> x + y * gw buf + z * gw buf * gw buf \<and>
            x + y * gw buf + z * gw buf * gw buf < gw buf ^ 3 \<and>
            int (length (sheet buf)) = gw buf ^ 3 \<and>
            index3 (sw buf) x y z = x + y * sw buf + z * sw buf * sw buf \<and>
            0 \<le> x + y * sw buf + z * sw buf * sw buf \<and>
            x + y * sw buf + z * sw buf * sw buf < sw buf ^ 3 \<and>
            int (length (out buf)) = sw buf ^ 3) \<and>
         (\<forall>sh. length sh = length (sheet buf) \<longrightarrow>
                fst (loop_z (sw buf) (gw buf) sh 0 (out buf)) = Ret ()) \<and>
         fst (Read cs fname buf w) \<noteq> Panic ''index out of range''"
proof (cases "sw buf \<le> 0")
  case True
  have loops: "fst (loop_z (sw buf) (gw buf) sh 0 (out buf)) = Ret ()" for sh
    using loop_z_no_rounds [OF True] by simp
  have "\<not> (0 \<le> x \<and> x < sw buf)" for x
    using True by linarith
  then show ?thesis
    using loops Read_index_panic [of buf cs fname w] by blast
next
  case False
  then have s0: "0 \<le> sw buf" and g0: "0 \<le> gw buf"
    using assms(2) by simp_all
  have "sw buf ^ 3 \<le> gw buf ^ 3"
    using assms(2) s0 by (rule power_mono)
  then have s3: "sw buf ^ 3 < 2 ^ 63"
    using assms(3) by linarith
  have sz: "sized buf"
    using NewGotetraBuffer_sized [OF assms(1) s0 g0 s3 assms(3)] by simp
  have lsh: "int (length (sheet buf)) = gw buf ^ 3" and lot: "int (length (out buf)) = sw buf ^ 3"
    using sz by (simp_all add: sized_def)
  have loops: "fst (loop_z (sw buf) (gw buf) sh 0 (out buf)) = Ret ()"
    if "length sh = length (sheet buf)" for sh
    using sz assms(2) that by (rule sized_loops_return)
  have idx: "index3 (gw buf) x y z = x + y * gw buf + z * gw buf * gw buf \<and>
            0 \<le> x + y * gw buf + z * gw buf * gw buf \<and>
            x + y * gw buf + z * gw buf * gw buf < gw buf ^ 3 \<and>
            index3 (sw buf) x y z = x + y * sw buf + z * sw buf * sw buf \<and>
            0 \<le> x + y * sw buf + z * sw buf * sw buf \<and>
            x + y * sw buf + z * sw buf * sw buf < sw buf ^ 3"
    if r: "0 \<le> x \<and> x < sw buf \<and> 0 \<le> y \<and> y < sw buf \<and> 0 \<le> z \<and> z < sw buf" for x y z
    using sized_indices(1,2) [OF sz assms(2) r]
      index3_exact_sub(2,3) [of x "sw buf" y z "gw buf"] cube_bound [of x "sw buf" y z]
      r assms(2,3) by simp
  show ?thesis
    using idx lsh lot loops Read_index_panic [of buf cs fname w] by blast
qed

theorem extraction_in_bounds_witness:
  "fst (NewGotetraBuffer 0 ''sheet.dat'' (sample_world (sample_file 2 4 64 0))) =
     Ret (Inr (sample_buffer 2 4)) \<and>
   sw (sample_buffer 2 4) \<le> gw (sample_buffer 2 4) \<and> gw (sample_buffer 2 4) ^ 3 < 2 ^ 63 \<and>
   index3 (gw (sample_buffer 2 4)) 1 1 1 = 21 \<and> index3 (sw (sample_buffer 2 4)) 1 1 1 = 7 \<and>
   length (sheet (sample_buffer 2 4)) = 64 \<and> length (out (sample_buffer 2 4)) = 8 \<and>
   fst (loop_z (sw (sample_buffer 2 4)) (gw (sample_buffer 2 4)) (sheet (sample_buffer 2 4)) 0
          (out (sample_buffer 2 4))) = Ret () \<and>
   fst (Read 0 ''sheet.dat'' (sample_buffer 2 4) (sample_world (sample_file 2 4 64 0))) \<noteq>
     Panic ''index out of range''"
proof -
  let ?b = "sample_buffer 2 4"
  let ?w = "sample_world (sample_file 2 4 64 0)"
  have f: "sw ?b = 2" "gw ?b = 4"
    by (simp_all add: sample_buffer_def)
  have mk: "fst (NewGotetraBuffer 0 ''sheet.dat'' ?w) = Ret (Inr ?b)"
    by code_simp
  have le: "sw ?b \<le> gw ?b"
    by (simp add: f)
  have g3: "gw ?b ^ 3 < 2 ^ 63"
    by (simp add: f)
  note t = extraction_in_bounds [OF mk le g3, of 0 "''sheet.dat''" ?w]
  have r: "(0::int) \<le> 1 \<and> 1 < sw ?b \<and> (0::int) \<le> 1 \<and> 1 < sw ?b \<and> (0::int) \<le> 1 \<and> 1 < sw ?b"
    by (simp add: f)
  have i: "index3 (gw ?b) 1 1 1 = 1 + 1 * gw ?b + 1 * gw ?b * gw ?b \<and>
           index3 (sw ?b) 1 1 1 = 1 + 1 * sw ?b + 1 * sw ?b * sw ?b \<and>
           int (length (sheet ?b)) = gw ?b ^ 3 \<and> int (length (out ?b)) = sw ?b ^ 3"
    using t r by blast
  have lp: "fst (loop_z (sw ?b) (gw ?b) (sheet ?b) 0 (out ?b)) = Ret ()"
    using t by blast
  have rd: "fst (Read 0 ''sheet.dat'' ?b ?w) \<noteq> Panic ''index out of range''"
    using t by blast
  show ?thesis
    using mk le g3 i lp rd by (simp add: f)
qed

text \<open>C3. After a successful \<open>Read\<close> on a buffer whose arrays have the lengths \<open>gw\<^sup>3\<close> and
  \<open>sw\<^sup>3\<close>, for every \<open>(x, y, z)\<close> with \<open>0 \<le> x, y, z < sw\<close> the cell
  \<open>x + y\<cdot>sw + z\<cdot>sw\<^sup>2\<close> of \<open>out\<close> equals the cell \<open>x + y\<cdot>gw + z\<cdot>gw\<^sup>2\<close> of \<open>sheet\<close>, both
  indices being in range, and the returned slice is \<open>out\<close>. The instance that follows is the
  example of the spec: grid width 4, segment width 2, vector \<open>i\<close> of the file being \<open>(i, 0, 0)\<close>.\<close>

theorem extraction_correct:
  assumes "sized buf" and "fst (Read cs fname buf w) = Ret (Inr o1)"
    and "0 \<le> x \<and> x < sw buf \<and> 0 \<le> y \<and> y < sw buf \<and> 0 \<le> z \<and> z < sw buf"
  shows "out (fst (snd (Read cs fname buf w))) ! nat (x + y * sw buf + z * sw buf * sw buf) =
         sheet (fst (snd (Read cs fname buf w))) ! nat (x + y * gw buf + z * gw buf * gw buf) \<and>
         in_bounds (x + y * sw buf + z * sw buf * sw buf) (out (fst (snd (Read cs fname buf w)))) \<and>
         in_bounds (x + y * gw buf + z * gw buf * gw buf) (sheet (fst (snd (Read cs fname buf w)))) \<and>
         o1 = out (fst (snd (Read cs fname buf w)))"
proof -
  let ?s = "sw buf" and ?g = "gw buf"
  have no: "\<not> open buf"
    using assms(2) by (auto simp: Read_def)
  from Read_success_cases [OF no assms(2)] obtain xs w1 ot where
    rp: "readSheetPositionsAt cs fname (sheet buf) w = (Ret None, xs, w1)" and
    lz: "loop_z ?s ?g xs 0 (out buf) = (Ret (), ot)" and
    o1: "o1 = ot" and
    rd: "Read cs fname buf w = (Ret (Inr ot), buf\<lparr>open := True, sheet := xs, out := ot\<rparr>, w1)"
    by blast
  have g0: "0 \<le> ?g" and g3: "?g ^ 3 < 2 ^ 63" and s3: "?s ^ 3 < 2 ^ 63"
    and lsh: "int (length (sheet buf)) = ?g ^ 3" and lot: "int (length (out buf)) = ?s ^ 3"
    using assms(1) by (simp_all add: sized_def)
  have lxs: "length xs = length (sheet buf)"
    using readSheetPositionsAt_length [of cs fname "sheet buf" w] rp by simp
  have lot': "length ot = length (out buf)"
    using loop_z_length [of ?s ?g xs 0 "out buf"] lz by simp
  have ex: "\<forall>x' y' z'. 0 \<le> x' \<and> x' < ?s \<and> 0 \<le> y' \<and> y' < ?s \<and> 0 \<le> z' \<and> z' < ?s \<longrightarrow>
           index3 ?s x' y' z' = z' * ?s * ?s + y' * ?s + x'"
    using index3_exact [of _ ?s] s3 by (simp add: add.commute add.left_commute)
  have snd: "(\<forall>j. j < nat (0 * ?s * ?s) \<longrightarrow> ot ! j = out buf ! j) \<and>
         (\<forall>x' y' z'. 0 \<le> z' \<and> z' < ?s \<and> 0 \<le> y' \<and> y' < ?s \<and> 0 \<le> x' \<and> x' < ?s \<longrightarrow>
            ot ! nat (z' * ?s * ?s + y' * ?s + x') = xs ! nat (index3 ?g x' y' z') \<and>
            in_bounds (index3 ?g x' y' z') xs \<and> in_bounds (z' * ?s * ?s + y' * ?s + x') (out buf))"
    by (rule loop_z_sound [OF lz _ ex]) simp
  have le: "?s \<le> ?g"
  proof (rule ccontr)
    assume "\<not> ?s \<le> ?g"
    then have "0 \<le> ?g \<and> ?g < ?s \<and> (0::int) \<le> 0 \<and> 0 < ?s \<and> (0::int) \<le> 0 \<and> 0 < ?s"
      using g0 by simp
    then have "in_bounds (index3 ?g 0 0 ?g) xs"
      using snd by blast
    moreover have "index3 ?g 0 0 ?g = ?g ^ 3"
    proof -
      have "- (2 ^ 63) \<le> (0::int)" by simp
      moreover have "0 \<le> ?g ^ 3" using g0 by simp
      ultimately have "- (2 ^ 63) \<le> ?g ^ 3" by (rule order_trans)
      then have "wrap64 (?g ^ 3) = ?g ^ 3"
        using g3 by (rule wrap64_id)
      then show ?thesis
        by (simp add: index3_def power3_eq_cube mult.assoc)
    qed
    ultimately show False
      using lxs lsh by (simp add: in_bounds_def)
  qed
  have r: "0 \<le> z \<and> z < ?s \<and> 0 \<le> y \<and> y < ?s \<and> 0 \<le> x \<and> x < ?s"
    using assms(3) by simp
  have here: "ot ! nat (z * ?s * ?s + y * ?s + x) = xs ! nat (index3 ?g x y z) \<and>
            in_bounds (index3 ?g x y z) xs \<and> in_bounds (z * ?s * ?s + y * ?s + x) (out buf)"
    using snd r by blast
  have ig: "index3 ?g x y z = x + y * ?g + z * ?g * ?g"
    using index3_exact_sub(1) [of x ?s y z ?g] assms(3) le g3 by simp
  have isw: "z * ?s * ?s + y * ?s + x = x + y * ?s + z * ?s * ?s"
    by simp
  have b': "out (fst (snd (Read cs fname buf w))) = ot" "sheet (fst (snd (Read cs fname buf w))) = xs"
    by (simp_all add: rd)
  show ?thesis
    unfolding b' using here ig isw o1 in_bounds_length [OF lot'] by simp
qed

theorem extraction_correct_witness:
  "sized (sample_buffer 2 4) \<and>
   fst (Read 0 ''sheet.dat'' (sample_buffer 2 4) (sample_world (sample_file 2 4 64 64))) =
     Ret (Inr [(f32 0, 0, 0), (f32 1, 0, 0), (f32 4, 0, 0), (f32 5, 0, 0),
               (f32 16, 0, 0), (f32 17, 0, 0), (f32 20, 0, 0), (f32 21, 0, 0)]) \<and>
   out (fst (snd (Read 0 ''sheet.dat'' (sample_buffer 2 4) (sample_world (sample_file 2 4 64 64))))) ! 2 =
     sheet (fst (snd (Read 0 ''sheet.dat'' (sample_buffer 2 4) (sample_world (sample_file 2 4 64 64))))) ! 4 \<and>
   out (fst (snd (Read 0 ''sheet.dat'' (sample_buffer 2 4) (sample_world (sample_file 2 4 64 64))))) ! 3 =
     sheet (fst (snd (Read 0 ''sheet.dat'' (sample_buffer 2 4) (sample_world (sample_file 2 4 64 64))))) ! 5 \<and>
   out (fst (snd (Read 0 ''sheet.dat'' (sample_buffer 2 4) (sample_world (sample_file 2 4 64 64))))) =
     [(f32 0, 0, 0), (f32 1, 0, 0), (f32 4, 0, 0), (f32 5, 0, 0),
      (f32 16, 0, 0), (f32 17, 0, 0), (f32 20, 0, 0), (f32 21, 0, 0)] \<and>
   f32 0 = 0 \<and> f32 1 = 0x3F800000 \<and> f32 4 = 0x40800000 \<and> f32 5 = 0x40A00000"
proof -
  let ?b = "sample_buffer 2 4"
  let ?w = "sample_world (sample_file 2 4 64 64)"
  let ?o = "[(f32 0, 0, 0), (f32 1, 0, 0), (f32 4, 0, 0), (f32 5, 0, 0),
             (f32 16, 0, 0), (f32 17, 0, 0), (f32 20, 0, 0), (f32 21, 0, 0)]"
  have f: "sw ?b = 2" "gw ?b = 4"
    by (simp_all add: sample_buffer_def)
  have sz: "sized ?b"
    by (simp add: sized_def sample_buffer_def)
  have rd: "fst (Read 0 ''sheet.dat'' ?b ?w) = Ret (Inr ?o)"
    by code_simp
  have r1: "(0::int) \<le> 0 \<and> 0 < sw ?b \<and> (0::int) \<le> 1 \<and> 1 < sw ?b \<and> (0::int) \<le> 0 \<and> 0 < sw ?b"
    by (simp add: f)
  have r2: "(0::int) \<le> 1 \<and> 1 < sw ?b \<and> (0::int) \<le> 1 \<and> 1 < sw ?b \<and> (0::int) \<le> 0 \<and> 0 < sw ?b"
    by (simp add: f)
  have a: "out (fst (snd (Read 0 ''sheet.dat'' ?b ?w))) ! 2 = sheet (fst (snd (Read 0 ''sheet.dat'' ?b ?w))) ! 4"
    using extraction_correct [OF sz rd r1] by (simp add: f)
  have b: "out (fst (snd (Read 0 ''sheet.dat'' ?b ?w))) ! 3 = sheet (fst (snd (Read 0 ''sheet.dat'' ?b ?w))) ! 5"
    using extraction_correct [OF sz rd r2] by (simp add: f)
  have c: "out (fst (snd (Read 0 ''sheet.dat'' ?b ?w))) = ?o"
    using extraction_correct [OF sz rd r1] by simp
  have v: "f32 0 = 0 \<and> f32 1 = 0x3F800000 \<and> f32 4 = 0x40800000 \<and> f32 5 = 0x40A00000"
    by code_simp
  show ?thesis
    using sz rd a b c v by blast
qed

section \<open>Rounding\<close>

text \<open>\<open>expo\<close> is the binary exponent, and a rounded value is within half a unit in the
  last place of the exact one.\<close>

lemma expo_bounds:
  assumes "r \<noteq> 0"
  shows "2 powi expo r \<le> \<bar>r\<bar>" and "\<bar>r\<bar> < 2 powi (expo r + 1)"
proof -
  have "2 powi expo r \<le> \<bar>r\<bar> \<and> \<bar>r\<bar> < 2 powi (expo r + 1)"
  proof (cases "1 \<le> \<bar>r\<bar>")
    case True
    let ?n = "\<lfloor>\<bar>r\<bar>\<rfloor>"
    have n: "0 < ?n" using True by simp
    have b: "2 ^ nat (bitlen ?n - 1) \<le> ?n" "?n < 2 ^ nat (bitlen ?n)"
      using bitlen_bounds [OF n] by simp_all
    have k: "1 \<le> bitlen ?n"
      using n bitlen_eq_zero_iff [of ?n] bitlen_nonneg [of ?n] by linarith
    have e: "expo r = bitlen ?n - 1" using True by (simp add: expo_def)
    have "real_of_int (2 ^ nat (bitlen ?n - 1)) \<le> real_of_int ?n"
      using b(1) by (simp only: of_int_le_iff)
    then have "2 ^ nat (bitlen ?n - 1) \<le> real_of_int ?n" by simp
    moreover have "real_of_int ?n \<le> \<bar>r\<bar>" by linarith
    ultimately have lo: "2 ^ nat (bitlen ?n - 1) \<le> \<bar>r\<bar>" by linarith
    have "?n + 1 \<le> 2 ^ nat (bitlen ?n)" using b(2) by simp
    then have "real_of_int (?n + 1) \<le> real_of_int (2 ^ nat (bitlen ?n))"
      by (simp only: of_int_le_iff)
    then have "real_of_int ?n + 1 \<le> 2 ^ nat (bitlen ?n)" by simp
    moreover have "\<bar>r\<bar> < real_of_int ?n + 1" by linarith
    ultimately have hi: "\<bar>r\<bar> < 2 ^ nat (bitlen ?n)" by linarith
    have p1: "(2::real) powi (bitlen ?n - 1) = 2 ^ nat (bitlen ?n - 1)"
      using k by (simp add: power_int_def)
    have p2: "(2::real) powi (bitlen ?n - 1 + 1) = 2 ^ nat (bitlen ?n)"
      using k by (simp add: power_int_def)
    show ?thesis
      unfolding e p1 p2 using lo hi by simp
  next
    case False
    let ?t = "1 / \<bar>r\<bar>"
    let ?m = "\<lceil>?t\<rceil> - 1"
    have r0: "0 < \<bar>r\<bar>" using assms by simp
    have t1: "1 < ?t" using False r0 by simp
    have m: "0 < ?m" using t1 by (simp add: less_ceiling_iff)
    have b: "2 ^ nat (bitlen ?m - 1) \<le> ?m" "?m < 2 ^ nat (bitlen ?m)"
      using bitlen_bounds [OF m] by simp_all
    have k: "1 \<le> bitlen ?m"
      using m bitlen_eq_zero_iff [of ?m] bitlen_nonneg [of ?m] by linarith
    have e: "expo r = - bitlen ?m" using False by (simp add: expo_def)
    have mt: "real_of_int ?m < ?t" by linarith
    have tc: "?t \<le> real_of_int ?m + 1" by simp
    have "?m + 1 \<le> 2 ^ nat (bitlen ?m)" using b(2) by simp
    then have "real_of_int (?m + 1) \<le> real_of_int (2 ^ nat (bitlen ?m))"
      by (simp only: of_int_le_iff)
    then have "real_of_int ?m + 1 \<le> 2 ^ nat (bitlen ?m)" by simp
    with tc have thi: "?t \<le> 2 ^ nat (bitlen ?m)" by linarith
    have "real_of_int (2 ^ nat (bitlen ?m - 1)) \<le> real_of_int ?m"
      using b(1) by (simp only: of_int_le_iff)
    then have "2 ^ nat (bitlen ?m - 1) \<le> real_of_int ?m" by simp
    with mt have tlo: "2 ^ nat (bitlen ?m - 1) < ?t" by linarith
    have lo: "1 / 2 ^ nat (bitlen ?m) \<le> \<bar>r\<bar>"
    proof -
      have "\<bar>r\<bar> * ?t \<le> \<bar>r\<bar> * 2 ^ nat (bitlen ?m)"
        using thi r0 by (intro mult_left_mono) simp_all
      then have "1 \<le> \<bar>r\<bar> * 2 ^ nat (bitlen ?m)" using r0 by simp
      then show ?thesis by (simp add: divide_le_eq)
    qed
    have hi: "\<bar>r\<bar> < 1 / 2 ^ nat (bitlen ?m - 1)"
    proof -
      have "\<bar>r\<bar> * 2 ^ nat (bitlen ?m - 1) < \<bar>r\<bar> * ?t"
        using tlo r0 by (intro mult_strict_left_mono) simp_all
      then have "\<bar>r\<bar> * 2 ^ nat (bitlen ?m - 1) < 1" using r0 by simp
      then show ?thesis by (simp add: less_divide_eq)
    qed
    have p1: "(2::real) powi (- bitlen ?m) = 1 / 2 ^ nat (bitlen ?m)"
      using k by (simp add: power_int_def field_simps)
    have p2: "(2::real) powi (- bitlen ?m + 1) = 1 / 2 ^ nat (bitlen ?m - 1)"
    proof (cases "bitlen ?m = 1")
      case True
      then show ?thesis by simp
    next
      case False
      then have "- bitlen ?m + 1 < 0" using k by simp
      moreover have "nat (- (- bitlen ?m + 1)) = nat (bitlen ?m - 1)" by simp
      ultimately show ?thesis by (simp add: power_int_def field_simps)
    qed
    show ?thesis
      unfolding e p1 p2 using lo hi by simp
  qed
  then show "2 powi expo r \<le> \<bar>r\<bar>" and "\<bar>r\<bar> < 2 powi (expo r + 1)"
    by simp_all
qed

lemma round_even_nearest: "\<bar>real_of_int (round_even q) - q\<bar> \<le> 1 / 2"
proof -
  let ?n = "\<lfloor>q\<rfloor>"
  have f: "real_of_int ?n \<le> q" "q < real_of_int ?n + 1"
    by linarith+
  show ?thesis
    using f by (auto simp: round_even_def Let_def abs_le_iff)
qed

lemma rnd_nearest:
  "\<bar>rnd p emin r - r\<bar> \<le> 2 powi (max (expo r) emin - int p + 1) / 2"
proof (cases "r = 0")
  case True
  then show ?thesis by (simp add: rnd_def)
next
  case False
  let ?u = "(2::real) powi (max (expo r) emin - int p + 1)"
  have u: "0 < ?u" by simp
  have "\<bar>real_of_int (round_even (r / ?u)) - r / ?u\<bar> * ?u \<le> 1 / 2 * ?u"
    using round_even_nearest [of "r / ?u"] u by (intro mult_right_mono) simp_all
  moreover have "\<bar>real_of_int (round_even (r / ?u)) - r / ?u\<bar> * ?u =
      \<bar>real_of_int (round_even (r / ?u)) * ?u - r\<bar>"
  proof -
    have "\<bar>real_of_int (round_even (r / ?u)) - r / ?u\<bar> * ?u =
          \<bar>(real_of_int (round_even (r / ?u)) - r / ?u) * ?u\<bar>"
      using u by (simp add: abs_mult)
    also have "(real_of_int (round_even (r / ?u)) - r / ?u) * ?u =
          real_of_int (round_even (r / ?u)) * ?u - r"
      using u by (simp add: left_diff_distrib)
    finally show ?thesis .
  qed
  ultimately show ?thesis
    using False by (simp add: rnd_def Let_def)
qed

section \<open>Cell bounds are never rejected\<close>

lemma is_fin_Fin: "is_fin a \<Longrightarrow> \<exists>s m. a = Fin s m"
  by (cases a) (simp_all add: is_fin_def)

lemma round_even_sign:
  "0 \<le> q \<Longrightarrow> 0 \<le> round_even q" "q \<le> 0 \<Longrightarrow> round_even q \<le> 0"
proof -
  show "0 \<le> round_even q" if "0 \<le> q"
  proof -
    have "0 \<le> \<lfloor>q\<rfloor>" using that by simp
    then show ?thesis by (simp add: round_even_def Let_def)
  qed
  show "round_even q \<le> 0" if "q \<le> 0"
  proof (cases "q = 0")
    case True
    then show ?thesis by (simp add: round_even_def)
  next
    case False
    then have "q < 0" using that by simp
    then have "\<lfloor>q\<rfloor> \<le> - 1" by (simp add: floor_le_iff)
    then show ?thesis by (simp add: round_even_def Let_def)
  qed
qed

lemma rnd_sign:
  "0 \<le> r \<Longrightarrow> 0 \<le> rnd p emin r" "r \<le> 0 \<Longrightarrow> rnd p emin r \<le> 0"
proof -
  let ?u = "(2::real) powi (max (expo r) emin - int p + 1)"
  have u: "0 < ?u" by simp
  show "0 \<le> rnd p emin r" if "0 \<le> r"
  proof -
    have "0 \<le> r / ?u" using that u by simp
    then have "0 \<le> round_even (r / ?u)" by (rule round_even_sign)
    then show ?thesis by (simp add: rnd_def Let_def)
  qed
  show "rnd p emin r \<le> 0" if "r \<le> 0"
  proof -
    have "r / ?u \<le> 0" using that u by (simp add: divide_nonpos_pos)
    then have "round_even (r / ?u) \<le> 0" by (rule round_even_sign)
    then have "real_of_int (round_even (r / ?u)) * ?u \<le> 0"
      using u by (simp add: mult_nonpos_nonneg)
    then show ?thesis by (simp add: rnd_def Let_def)
  qed
qed

lemma signed_abs:
  fixes r v :: real
  shows "(0 \<le> r \<longrightarrow> 0 \<le> v) \<Longrightarrow> (r \<le> 0 \<longrightarrow> v \<le> 0) \<Longrightarrow> fval (Fin (r < 0) \<bar>v\<bar>) = v"
  by (auto simp: fval_def)

lemma result64_finite:
  assumes "\<bar>rnd64 r\<bar> < 2 ^ 1024"
  shows "is_fin (result64 s r) \<and> fval (result64 s r) = rnd64 r"
proof (cases "r = 0")
  case True
  then show ?thesis by (simp add: result64_def is_fin_def fval_def rnd64_def rnd_def)
next
  case False
  have "fval (Fin (r < 0) \<bar>rnd64 r\<bar>) = rnd64 r"
    using rnd_sign [of r 53 "- 1022"] by (intro signed_abs) (simp_all add: rnd64_def)
  then show ?thesis
    using False assms by (simp add: result64_def is_fin_def)
qed

lemma result32_finite:
  assumes "\<bar>rnd32 r\<bar> < 2 ^ 128"
  shows "is_fin (result32 s r) \<and> fval (result32 s r) = rnd32 r"
proof (cases "r = 0")
  case True
  then show ?thesis by (simp add: result32_def is_fin_def fval_def rnd32_def rnd_def)
next
  case False
  have "fval (Fin (r < 0) \<bar>rnd32 r\<bar>) = rnd32 r"
    using rnd_sign [of r 24 "- 126"] by (intro signed_abs) (simp_all add: rnd32_def)
  then show ?thesis
    using False assms by (simp add: result32_def is_fin_def)
qed

lemma float64_of_int_finite:
  "is_fin (float64_of_int i) \<and> fval (float64_of_int i) = rnd64 (real_of_int i)"
proof -
  have "fval (Fin (real_of_int i < 0) \<bar>rnd64 (real_of_int i)\<bar>) = rnd64 (real_of_int i)"
    using rnd_sign [of "real_of_int i" 53 "- 1022"] by (intro signed_abs) (simp_all add: rnd64_def)
  then show ?thesis
    by (simp add: float64_of_int_def is_fin_def)
qed

lemma fdiv_finite:
  assumes "is_fin a" and "is_fin b" and "fval b \<noteq> 0" and "\<bar>rnd64 (fval a / fval b)\<bar> < 2 ^ 1024"
  shows "is_fin (fdiv a b) \<and> fval (fdiv a b) = rnd64 (fval a / fval b)"
proof -
  obtain s x where a: "a = Fin s x" using is_fin_Fin [OF assms(1)] by blast
  obtain t y where b: "b = Fin t y" using is_fin_Fin [OF assms(2)] by blast
  have "y \<noteq> 0" using assms(3) b by (auto simp: fval_def split: if_splits)
  then have "fdiv a b = result64 (s \<noteq> t) (fval a / fval b)"
    by (simp add: a b)
  then show ?thesis
    using result64_finite [OF assms(4)] by simp
qed

lemma fadd_finite:
  assumes "is_fin a" and "is_fin b" and "\<bar>rnd32 (fval a + fval b)\<bar> < 2 ^ 128"
  shows "is_fin (fadd a b) \<and> fval (fadd a b) = rnd32 (fval a + fval b)"
proof -
  obtain s x where a: "a = Fin s x" using is_fin_Fin [OF assms(1)] by blast
  obtain t y where b: "b = Fin t y" using is_fin_Fin [OF assms(2)] by blast
  have "fadd a b = result32 (s \<and> t) (fval a + fval b)"
    by (simp add: a b)
  then show ?thesis
    using result32_finite [OF assms(3)] by simp
qed

lemma to_int_Floor:
  assumes "is_fin a" and "- (2 ^ 63) \<le> \<lfloor>fval a\<rfloor>" and "\<lfloor>fval a\<rfloor> < 2 ^ 63"
  shows "to_int impl (Floor a) = \<lfloor>fval a\<rfloor>"
proof -
  obtain s x where a: "a = Fin s x" using is_fin_Fin [OF assms(1)] by blast
  let ?f = "\<lfloor>fval a\<rfloor>"
  have fl: "is_fin (Floor a) \<and> fval (Floor a) = real_of_int ?f"
    by (simp add: a Let_def is_fin_def) (simp add: fval_def)
  then obtain s' x' where b: "Floor a = Fin s' x'" using is_fin_Fin by blast
  have v: "fval (Fin s' x') = real_of_int ?f" using fl b by simp
  have "(if 0 \<le> fval (Fin s' x') then \<lfloor>fval (Fin s' x')\<rfloor> else \<lceil>fval (Fin s' x')\<rceil>) = ?f"
    unfolding v by simp
  then show ?thesis
    using assms(2,3) by (simp add: to_int_def b Let_def)
qed

lemma wrap64_small:
  assumes "small i" and "small j"
  shows "wrap64 (1 + i) = 1 + i \<and> wrap64 (1 + i - j) = 1 + i - j"
proof -
  have "- (2 ^ 63) \<le> 1 + i" "1 + i < 2 ^ 63" "- (2 ^ 63) \<le> 1 + i - j" "1 + i - j < 2 ^ 63"
    using assms by (simp_all add: small_def)
  then show ?thesis
    by (simp add: wrap64_id)
qed

lemma small_in_range: "small i \<Longrightarrow> - (2 ^ 63) \<le> i \<and> i < 2 ^ 63"
  by (simp add: small_def)

lemma small_floor_finite:
  fixes v :: real
  assumes "small \<lfloor>v\<rfloor>"
  shows "\<bar>v\<bar> < 2 ^ 1024"
proof -
  have lo: "- (2 ^ 61) \<le> \<lfloor>v\<rfloor>" and hi: "\<lfloor>v\<rfloor> < 2 ^ 61"
    using assms by (simp_all add: small_def)
  have "real_of_int (- (2 ^ 61)) \<le> v"
    using lo by (simp only: le_floor_iff)
  moreover have "v < real_of_int (2 ^ 61)"
    using hi by (simp only: floor_less_iff)
  ultimately have "\<bar>v\<bar> \<le> 2 ^ 61"
    by simp
  moreover have "(2::real) ^ 61 < 2 ^ 1024"
    by (rule power_strict_increasing) simp_all
  ultimately show ?thesis
    by linarith
qed

lemma axis_exact:
  assumes "is_fin cw" and "fval cw \<noteq> 0" and "is_fin (val32 o_j)" and "is_fin (val32 w_j)"
    and "\<bar>rnd32 (fval (val32 o_j) + fval (val32 w_j))\<bar> < 2 ^ 128"
    and "small \<lfloor>rnd64 (fval (val32 o_j) / fval cw)\<rfloor>"
    and "small \<lfloor>rnd64 (rnd32 (fval (val32 o_j) + fval (val32 w_j)) / fval cw)\<rfloor>"
  shows "axis impl cw o_j w_j =
           (\<lfloor>rnd64 (fval (val32 o_j) / fval cw)\<rfloor>,
            1 + \<lfloor>rnd64 (rnd32 (fval (val32 o_j) + fval (val32 w_j)) / fval cw)\<rfloor> -
              \<lfloor>rnd64 (fval (val32 o_j) / fval cw)\<rfloor>)"
proof -
  let ?a = "fval (val32 o_j)" and ?b = "fval (val32 w_j)" and ?c = "fval cw"
  let ?i = "\<lfloor>rnd64 (?a / ?c)\<rfloor>"
  let ?k = "\<lfloor>rnd64 (rnd32 (?a + ?b) / ?c)\<rfloor>"
  have d1: "is_fin (fdiv (val32 o_j) cw) \<and> fval (fdiv (val32 o_j) cw) = rnd64 (?a / ?c)"
    using assms(3,1,2) small_floor_finite [OF assms(6)] by (rule fdiv_finite)
  have a: "is_fin (fadd (val32 o_j) (val32 w_j)) \<and>
           fval (fadd (val32 o_j) (val32 w_j)) = rnd32 (?a + ?b)"
    using assms(3,4,5) by (rule fadd_finite)
  have d2: "is_fin (fdiv (fadd (val32 o_j) (val32 w_j)) cw) \<and>
            fval (fdiv (fadd (val32 o_j) (val32 w_j)) cw) = rnd64 (rnd32 (?a + ?b) / ?c)"
    using fdiv_finite [of "fadd (val32 o_j) (val32 w_j)" cw] a assms(1,2)
      small_floor_finite [OF assms(7)] by simp
  have t1: "to_int impl (Floor (fdiv (val32 o_j) cw)) = ?i"
    using to_int_Floor [of "fdiv (val32 o_j) cw" impl] d1 small_in_range [OF assms(6)] by simp
  have t2: "to_int impl (Floor (fdiv (fadd (val32 o_j) (val32 w_j)) cw)) = ?k"
    using to_int_Floor [of "fdiv (fadd (val32 o_j) (val32 w_j)) cw" impl] d2
      small_in_range [OF assms(7)] by simp
  show ?thesis
    using wrap64_small [OF assms(7) assms(6)] by (simp add: axis_def Let_def t1 t2)
qed

lemma cellWidth_fdiv:
  assumes "is_fin t" and "cellWidth (fval t) cells \<noteq> 0" and "\<bar>cellWidth (fval t) cells\<bar> < 2 ^ 1024"
  shows "is_fin (fdiv t (float64_of_int cells)) \<and>
         fval (fdiv t (float64_of_int cells)) = cellWidth (fval t) cells"
proof -
  have c: "is_fin (float64_of_int cells)" "fval (float64_of_int cells) = rnd64 (real_of_int cells)"
    using float64_of_int_finite [of cells] by simp_all
  have nz: "rnd64 (real_of_int cells) \<noteq> 0"
  proof
    assume "rnd64 (real_of_int cells) = 0"
    then have "cellWidth (fval t) cells = 0"
      by (simp add: cellWidth_def rnd64_def rnd_def)
    with assms(2) show False by simp
  qed
  show ?thesis
    using fdiv_finite [OF assms(1) c(1)] c(2) nz assms(3) by (simp add: cellWidth_def)
qed

lemma axis_spec:
  assumes "is_fin t" and "cellWidth (fval t) cells \<noteq> 0" and "\<bar>cellWidth (fval t) cells\<bar> < 2 ^ 1024"
    and "is_fin (val32 o_j)" and "is_fin (val32 w_j)"
    and "\<bar>rnd32 (fval (val32 o_j) + fval (val32 w_j))\<bar> < 2 ^ 128"
    and "small (originIdx (fval t) cells (fval (val32 o_j)))"
    and "small (farIdx (fval t) cells (fval (val32 o_j)) (fval (val32 w_j)) - 1)"
  shows "axis impl (fdiv t (float64_of_int cells)) o_j w_j =
           (originIdx (fval t) cells (fval (val32 o_j)),
            widthIdx (fval t) cells (fval (val32 o_j)) (fval (val32 w_j)))"
proof -
  let ?cw = "fdiv t (float64_of_int cells)"
  have cw: "is_fin ?cw" "fval ?cw = cellWidth (fval t) cells"
    using cellWidth_fdiv [OF assms(1,2,3)] by simp_all
  show ?thesis
    using axis_exact [of ?cw o_j w_j impl] cw assms(2,4-8)
    by (simp add: originIdx_def farIdx_def widthIdx_def)
qed

lemma CellBounds_returns: "\<exists>cb. CellBounds impl h cells = Ret cb"
  by (simp add: CellBounds_def Let_def split: prod.splits)

lemma cell_header_values:
  "val64 0x4059000000000000 = Fin False 100" "val32 0x40A00000 = Fin False 5"
  "val32 0x41400000 = Fin False 12"
  by code_simp+

lemma cell_header_fields:
  "TotalWidth (Raw (cell_header_of t a b)) = t"
  "RawGotetraHeader.Origin (Raw (cell_header_of t a b)) = (a, a, a)"
  "RawGotetraHeader.Width (Raw (cell_header_of t a b)) = (b, b, b)"
  by (simp_all add: cell_header_of_def)

text \<open>The claim that \<open>CellBounds\<close> rejects \<open>cells \<le> 0\<close> is false: for the header of the
  spec's example it returns bounds for \<open>cells = -10\<close>, and for \<open>cells = 0\<close>, where the
  division by zero is carried out and gives an infinite cell width.\<close>

theorem CellBounds_rejects_counterexample:
  "CellBounds amd64 cell_header (- 10) = Ret \<lparr>Origin = (- 1, - 1, - 1), Width = (0, 0, 0)\<rparr> \<and>
   CellBounds amd64 cell_header 0 = Ret \<lparr>Origin = (0, 0, 0), Width = (1, 1, 1)\<rparr>"
proof -
  note v = cell_header_values
  have f: "is_fin (Fin False 100)" "is_fin (Fin False 5)" "is_fin (Fin False 12)"
    "fval (Fin False 100) = 100" "fval (Fin False 5) = 5" "fval (Fin False 12) = 12"
    by (simp_all add: is_fin_def fval_def)
  have c: "cellWidth 100 (- 10) = - 10" "originIdx 100 (- 10) 5 = - 1"
    "farIdx 100 (- 10) 5 12 = - 1" "widthIdx 100 (- 10) 5 12 = 0" "rnd32 (5 + 12) = 17"
    by code_simp+
  have s: "small (- 1)" "small (- 2)"
    by (simp_all add: small_def)
  have r: "rnd32 17 = 17"
    using c(5) by simp
  have a: "axis amd64 (fdiv (Fin False 100) (float64_of_int (- 10))) 0x40A00000 0x41400000 = (- 1, 0)"
    using axis_spec [of "Fin False 100" "- 10" "0x40A00000" "0x41400000" amd64]
    by (simp add: v f c s r)
  have z: "float64_of_int 0 = Fin False 0"
    by (simp add: float64_of_int_def rnd64_def rnd_def)
  have b: "axis amd64 (Infty False) 0x40A00000 0x41400000 = (0, 1)"
    by (simp add: axis_def v Let_def to_int_def fval_def wrap64_def result32_def r)
  show ?thesis
    by (simp add: CellBounds_def cell_header_def cell_header_fields v a z b)
qed

text \<open>C7 (amended). \<open>CellBounds\<close> rejects nothing: it returns bounds for every header and
  every \<open>cells\<close>. Whenever the cell width \<open>totalWidth / cells\<close>, computed in \<^verbatim>\<open>float64\<close>,
  is finite and not zero (so \<open>cells\<close> is not zero, but may be negative), origins and
  widths are finite, their \<^verbatim>\<open>float32\<close> sums do not overflow and the indices are far from
  the ends of the \<^verbatim>\<open>int\<close> range, the bounds are those of the spec on every axis, in
  floating-point arithmetic: the origin index is \<open>floor (origin / cellWidth)\<close> and the
  width index is \<open>1 + floor ((origin + width) / cellWidth) - originIdx\<close>, each division
  rounded to \<^verbatim>\<open>float64\<close> and the sum to \<^verbatim>\<open>float32\<close>. The instances that follow are the
  example of the spec and two inputs where the rounding decides the result.\<close>

theorem CellBounds_formula:
  "(\<exists>cb. CellBounds impl h cells = Ret cb) \<and>
   (is_fin (val64 (TotalWidth (Raw h))) \<and>
    cellWidth (fval (val64 (TotalWidth (Raw h)))) cells \<noteq> 0 \<and>
    \<bar>cellWidth (fval (val64 (TotalWidth (Raw h)))) cells\<bar> < 2 ^ 1024 \<and>
    RawGotetraHeader.Origin (Raw h) = (ox, oy, oz) \<and> RawGotetraHeader.Width (Raw h) = (wx, wy, wz) \<and>
    is_fin (val32 ox) \<and> is_fin (val32 oy) \<and> is_fin (val32 oz) \<and>
    is_fin (val32 wx) \<and> is_fin (val32 wy) \<and> is_fin (val32 wz) \<and>
    \<bar>rnd32 (fval (val32 ox) + fval (val32 wx))\<bar> < 2 ^ 128 \<and>
    \<bar>rnd32 (fval (val32 oy) + fval (val32 wy))\<bar> < 2 ^ 128 \<and>
    \<bar>rnd32 (fval (val32 oz) + fval (val32 wz))\<bar> < 2 ^ 128 \<and>
    small (originIdx (fval (val64 (TotalWidth (Raw h)))) cells (fval (val32 ox))) \<and>
    small (originIdx (fval (val64 (TotalWidth (Raw h)))) cells (fval (val32 oy))) \<and>
    small (originIdx (fval (val64 (TotalWidth (Raw h)))) cells (fval (val32 oz))) \<and>
    small (farIdx (fval (val64 (TotalWidth (Raw h)))) cells (fval (val32 ox)) (fval (val32 wx)) - 1) \<and>
    small (farIdx (fval (val64 (TotalWidth (Raw h)))) cells (fval (val32 oy)) (fval (val32 wy)) - 1) \<and>
    small (farIdx (fval (val64 (TotalWidth (Raw h)))) cells (fval (val32 oz)) (fval (val32 wz)) - 1)
    \<longrightarrow>
    CellBounds impl h cells =
      Ret \<lparr>Origin = (originIdx (fval (val64 (TotalWidth (Raw h)))) cells (fval (val32 ox)),
                     originIdx (fval (val64 (TotalWidth (Raw h)))) cells (fval (val32 oy)),
                     originIdx (fval (val64 (TotalWidth (Raw h)))) cells (fval (val32 oz))),
           Width = (widthIdx (fval (val64 (TotalWidth (Raw h)))) cells (fval (val32 ox)) (fval (val32 wx)),
                    widthIdx (fval (val64 (TotalWidth (Raw h)))) cells (fval (val32 oy)) (fval (val32 wy)),
                    widthIdx (fval (val64 (TotalWidth (Raw h)))) cells (fval (val32 oz)) (fval (val32 wz)))\<rparr>)"
proof (intro conjI impI)
  show "\<exists>cb. CellBounds impl h cells = Ret cb"
    by (rule CellBounds_returns)
next
  let ?t = "val64 (TotalWidth (Raw h))"
  assume a: "is_fin ?t \<and> cellWidth (fval ?t) cells \<noteq> 0 \<and> \<bar>cellWidth (fval ?t) cells\<bar> < 2 ^ 1024 \<and>
    RawGotetraHeader.Origin (Raw h) = (ox, oy, oz) \<and> RawGotetraHeader.Width (Raw h) = (wx, wy, wz) \<and>
    is_fin (val32 ox) \<and> is_fin (val32 oy) \<and> is_fin (val32 oz) \<and>
    is_fin (val32 wx) \<and> is_fin (val32 wy) \<and> is_fin (val32 wz) \<and>
    \<bar>rnd32 (fval (val32 ox) + fval (val32 wx))\<bar> < 2 ^ 128 \<and>
    \<bar>rnd32 (fval (val32 oy) + fval (val32 wy))\<bar> < 2 ^ 128 \<and>
    \<bar>rnd32 (fval (val32 oz) + fval (val32 wz))\<bar> < 2 ^ 128 \<and>
    small (originIdx (fval ?t) cells (fval (val32 ox))) \<and>
    small (originIdx (fval ?t) cells (fval (val32 oy))) \<and>
    small (originIdx (fval ?t) cells (fval (val32 oz))) \<and>
    small (farIdx (fval ?t) cells (fval (val32 ox)) (fval (val32 wx)) - 1) \<and>
    small (farIdx (fval ?t) cells (fval (val32 oy)) (fval (val32 wy)) - 1) \<and>
    small (farIdx (fval ?t) cells (fval (val32 oz)) (fval (val32 wz)) - 1)"
  have x: "axis impl (fdiv ?t (float64_of_int cells)) ox wx =
      (originIdx (fval ?t) cells (fval (val32 ox)), widthIdx (fval ?t) cells (fval (val32 ox)) (fval (val32 wx)))"
    using a by (intro axis_spec) simp_all
  have y: "axis impl (fdiv ?t (float64_of_int cells)) oy wy =
      (originIdx (fval ?t) cells (fval (val32 oy)), widthIdx (fval ?t) cells (fval (val32 oy)) (fval (val32 wy)))"
    using a by (intro axis_spec) simp_all
  have z: "axis impl (fdiv ?t (float64_of_int cells)) oz wz =
      (originIdx (fval ?t) cells (fval (val32 oz)), widthIdx (fval ?t) cells (fval (val32 oz)) (fval (val32 wz)))"
    using a by (intro axis_spec) simp_all
  have o: "RawGotetraHeader.Origin (Raw h) = (ox, oy, oz)" and w: "RawGotetraHeader.Width (Raw h) = (wx, wy, wz)"
    using a by simp_all
  show "CellBounds impl h cells =
      Ret \<lparr>Origin = (originIdx (fval ?t) cells (fval (val32 ox)),
                     originIdx (fval ?t) cells (fval (val32 oy)),
                     originIdx (fval ?t) cells (fval (val32 oz))),
           Width = (widthIdx (fval ?t) cells (fval (val32 ox)) (fval (val32 wx)),
                    widthIdx (fval ?t) cells (fval (val32 oy)) (fval (val32 wy)),
                    widthIdx (fval ?t) cells (fval (val32 oz)) (fval (val32 wz)))\<rparr>"
    by (simp add: CellBounds_def o w x y z)
qed

theorem CellBounds_formula_witness:
  "CellBounds amd64 cell_header 10 = Ret \<lparr>Origin = (0, 0, 0), Width = (2, 2, 2)\<rparr> \<and>
   CellBounds amd64 (cell_header_of 0x401C000000000000 0x420C0000 0) 3 =
     Ret \<lparr>Origin = (14, 14, 14), Width = (1, 1, 1)\<rparr> \<and>
   CellBounds amd64 (cell_header_of 0x4059000000000000 0x4B800000 0x3F800000) 100 =
     Ret \<lparr>Origin = (16777216, 16777216, 16777216), Width = (1, 1, 1)\<rparr>"
proof -
  have v: "val64 0x4059000000000000 = Fin False 100" "val32 0x40A00000 = Fin False 5"
    "val32 0x41400000 = Fin False 12" "val64 0x401C000000000000 = Fin False 7"
    "val32 0x420C0000 = Fin False 35" "val32 0 = Fin False 0"
    "val32 0x4B800000 = Fin False 16777216" "val32 0x3F800000 = Fin False 1"
    by code_simp+
  have f: "is_fin (Fin s m)" "fval (Fin False m) = m" for s m
    by (simp_all add: is_fin_def fval_def)
  have c1: "cellWidth 100 10 = 10" "originIdx 100 10 5 = 0" "farIdx 100 10 5 12 = 2"
    "widthIdx 100 10 5 12 = 2" "rnd32 17 = 17"
    by code_simp+
  have c2: "cellWidth 7 3 \<noteq> 0" "\<bar>cellWidth 7 3\<bar> < 3" "originIdx 7 3 35 = 14" "farIdx 7 3 35 0 = 15"
    "widthIdx 7 3 35 0 = 1" "rnd32 35 = 35"
    by code_simp+
  have c3: "cellWidth 100 100 = 1" "originIdx 100 100 16777216 = 16777216"
    "farIdx 100 100 16777216 1 = 16777217" "widthIdx 100 100 16777216 1 = 1"
    "rnd32 16777217 = 16777216"
    by code_simp+
  have s: "small 0" "small 1" "small 14" "small 16777216"
    by (simp_all add: small_def)
  have big: "(3::real) < 2 ^ 1024"
  proof -
    have "(2::real) ^ 2 < 2 ^ 1024" by (rule power_strict_increasing) simp_all
    then show ?thesis by simp
  qed
  have b2: "\<bar>cellWidth 7 3\<bar> < 2 ^ 1024"
    using c2(2) big by linarith
  have h: "cell_header = cell_header_of 0x4059000000000000 0x40A00000 0x41400000"
    by (simp add: cell_header_def)
  have w1: "CellBounds amd64 cell_header 10 = Ret \<lparr>Origin = (0, 0, 0), Width = (2, 2, 2)\<rparr>"
    using CellBounds_formula [of amd64 cell_header 10 "0x40A00000" "0x40A00000" "0x40A00000"
        "0x41400000" "0x41400000" "0x41400000"]
    by (simp add: h cell_header_fields v f c1 s)
  have w2: "CellBounds amd64 (cell_header_of 0x401C000000000000 0x420C0000 0) 3 =
     Ret \<lparr>Origin = (14, 14, 14), Width = (1, 1, 1)\<rparr>"
    using CellBounds_formula [of amd64 "cell_header_of 0x401C000000000000 0x420C0000 0" 3
        "0x420C0000" "0x420C0000" "0x420C0000" 0 0 0] b2
    by (simp add: cell_header_fields v f c2 s)
  have w3: "CellBounds amd64 (cell_header_of 0x4059000000000000 0x4B800000 0x3F800000) 100 =
     Ret \<lparr>Origin = (16777216, 16777216, 16777216), Width = (1, 1, 1)\<rparr>"
    using CellBounds_formula [of amd64 "cell_header_of 0x4059000000000000 0x4B800000 0x3F800000" 100
        "0x4B800000" "0x4B800000" "0x4B800000" "0x3F800000" "0x3F800000" "0x3F800000"]
    by (simp add: cell_header_fields v f c3 s)
  show ?thesis
    using w1 w2 w3 by blast
qed

end
